theory Spec2Isabelle
  imports Main "HOL-Library.Word" "HOL-Library.Char_ord" "HOL-Library.List_Lexorder"
begin

section \<open>The table wrapper of the model package over Bolt\<close>

text \<open>
  The source file defines \<^verbatim>\<open>table\<close>, a generic persistence wrapper over one Bolt bucket:
  \<^verbatim>\<open>newTable\<close>, \<^verbatim>\<open>getById\<close>, \<^verbatim>\<open>getAll\<close>, \<^verbatim>\<open>create\<close>, \<^verbatim>\<open>update\<close>, \<^verbatim>\<open>delete\<close>,
  \<^verbatim>\<open>truncate\<close>, \<^verbatim>\<open>getBucket\<close>, \<^verbatim>\<open>validateType\<close> and \<^verbatim>\<open>idToKey\<close>. Each of them is
  embedded below under its own name. What the file imports (reflect, strconv, encoding/json,
  bbolt) is not part of it; the pieces of those libraries that the functions call are
  modelled in the first subsections, as small as the calls need them.
\<close>

subsection \<open>reflect: kinds, types and values\<close>

text \<open>The values of \<^verbatim>\<open>reflect.Kind\<close>.\<close>

datatype kind =
    Invalid | Bool | Int | Int8 | Int16 | Int32 | Int64
  | Uint | Uint8 | Uint16 | Uint32 | Uint64 | Uintptr
  | Float32 | Float64 | Complex64 | Complex128
  | Array | Chan | Func | Interface | Map | Ptr | Slice | String | Struct | UnsafePointer

text \<open>
  A \<^verbatim>\<open>reflect.Type\<close>. A struct type has its name and its fields; a field (a
  \<^verbatim>\<open>reflect.StructField\<close>) is its name paired with its \<^verbatim>\<open>PkgPath\<close>, which is empty exactly
  when the field is exported, then the value of its \<^verbatim>\<open>db\<close> tag (\<^verbatim>\<open>field.Tag.Get("db")\<close>,
  empty when the tag is missing) and its type. \<open>TOther k\<close> is any type of another kind;
  \<open>TOther Invalid\<close> stands for the nil interface.
\<close>

datatype gotype =
    TStruct string "((string \<times> string) \<times> string \<times> gotype) list"
  | TPtr gotype
  | TSlice gotype
  | TOther kind

fun Kind :: "gotype \<Rightarrow> kind" where
  "Kind (TStruct n fs) = Struct"
| "Kind (TPtr T) = Ptr"
| "Kind (TSlice T) = Slice"
| "Kind (TOther k) = k"

text \<open>\<^verbatim>\<open>Type.Elem()\<close> panics on a type that has no element type: \<open>None\<close>.\<close>

fun Elem :: "gotype \<Rightarrow> gotype option" where
  "Elem (TPtr T) = Some T"
| "Elem (TSlice T) = Some T"
| "Elem T = None"

fun Name :: "gotype \<Rightarrow> string" where
  "Name (TStruct n fs) = n"
| "Name T = []"

fun Fields :: "gotype \<Rightarrow> ((string \<times> string) \<times> string \<times> gotype) list" where
  "Fields (TStruct n fs) = fs"
| "Fields T = []"

text \<open>
  A struct value is the list of its field values. \<^verbatim>\<open>int64\<close> and \<^verbatim>\<open>uint64\<close> are both
  \<open>64 word\<close>: the conversion \<^verbatim>\<open>int64(x)\<close> of the source keeps the bits, \<open>sint\<close> reads the
  signed value and \<open>unat\<close> the unsigned one.
\<close>

datatype goval = VInt64 "64 word" | VString string | VBool bool

type_synonym struct_val = "goval list"

text \<open>\<^verbatim>\<open>value.Field(i).Int()\<close>; \<open>None\<close> is the panic of reflect on a field that is not there
  or not an integer.\<close>

definition Field_Int :: "struct_val \<Rightarrow> nat \<Rightarrow> 64 word option" where
  "Field_Int v i =
     (if i < length v then (case v ! i of VInt64 w \<Rightarrow> Some w | _ \<Rightarrow> None) else None)"

text \<open>
  \<^verbatim>\<open>value.Field(i).CanSet()\<close> for a struct behind a pointer: the struct is addressable, so
  the field can be set exactly when it is exported. \<open>T\<close> is the type of the struct.
\<close>

definition CanSet :: "gotype \<Rightarrow> nat \<Rightarrow> bool" where
  "CanSet T i = (i < length (Fields T) \<and> snd (fst (Fields T ! i)) = [])"

text \<open>
  \<^verbatim>\<open>value.Field(i).SetInt(id)\<close>, called by the source only after \<open>Field_Int\<close> has succeeded.
  reflect reads an unexported field but does not write it: \<open>None\<close> is the panic of
  \<^verbatim>\<open>SetInt\<close> on a field that cannot be set, and the struct is then as it was.
\<close>

definition Field_SetInt :: "gotype \<Rightarrow> struct_val \<Rightarrow> nat \<Rightarrow> 64 word \<Rightarrow> struct_val option" where
  "Field_SetInt T v i w = (if CanSet T i then Some (v[i := VInt64 w]) else None)"

subsection \<open>strconv.FormatInt in base 10\<close>

definition digit :: "nat \<Rightarrow> char" where
  "digit d = ''0123456789'' ! d"

fun dec :: "nat \<Rightarrow> string" where
  "dec n = (if n < 10 then [digit n] else dec (n div 10) @ [digit (n mod 10)])"

declare dec.simps [simp del]

definition FormatInt10 :: "int \<Rightarrow> string" where
  "FormatInt10 i = (if i < 0 then CHR ''-'' # dec (nat (- i)) else dec (nat i))"

subsection \<open>Errors\<close>

text \<open>
  The source builds every error of its own with \<^verbatim>\<open>fmt.Errorf\<close>; there is one constructor
  for each format string, with the values the message is formatted from. \<open>JsonError\<close> is an
  error of the codec, \<open>BoltError\<close> one of Bolt, \<open>Panic\<close> a run-time panic.
\<close>

datatype bolt_error = ErrBucketNotFound | ErrBucketExists | ErrBucketNameRequired

datatype error =
    RecordTypeNotStruct kind
  | IdFieldNotInt64 string kind
  | NoIdField string
  | InputKindMismatch "kind list" "kind list"
  | RecordTypeMismatch gotype string
  | CreateNonZeroId string "64 word"
  | AlreadyExists string "64 word" string
  | UpdateZeroId string
  | UpdateNonExistent string "64 word"
  | DeleteNonExistent string "64 word"
  | UnknownTable string
  | JsonError string
  | BoltError bolt_error
  | Panic

subsection \<open>Bolt: buckets, sequences and transactions\<close>

text \<open>
  Modelled from the spec: the storage engine (bbolt) is an external library, consumed
  through the Store Adapter contract of the specification: namespaces created and dropped
  by name, get, put and delete by byte key, iteration in ascending byte order of the keys,
  one sequence counter for each namespace, and transactions that apply all of a closure's
  writes or none. A bucket is its counter and its entries, kept in ascending key order as
  the B+tree keeps them; a bucket that was just created is empty with its counter at 0, and
  \<^verbatim>\<open>NextSequence\<close> adds one to the counter (an unsigned 64-bit value) and returns it.
  Failures of the disk are outside the model.
\<close>

record bucket =
  sequence :: "64 word"
  entries :: "(string \<times> string) list"

type_synonym boltdb = "string \<rightharpoonup> bucket"

definition empty_bucket :: bucket where
  "empty_bucket = \<lparr>sequence = 0, entries = []\<rparr>"

definition NextSequence :: "bucket \<Rightarrow> 64 word \<times> bucket" where
  "NextSequence b = (sequence b + 1, b\<lparr>sequence := sequence b + 1\<rparr>)"

definition Get :: "bucket \<Rightarrow> string \<Rightarrow> string option" where
  "Get b k = map_of (entries b) k"

fun put_entry :: "string \<Rightarrow> string \<Rightarrow> (string \<times> string) list \<Rightarrow> (string \<times> string) list" where
  "put_entry k v [] = [(k, v)]"
| "put_entry k v ((k', v') # es) =
     (if k < k' then (k, v) # (k', v') # es
      else if k = k' then (k, v) # es
      else (k', v') # put_entry k v es)"

definition Put :: "bucket \<Rightarrow> string \<Rightarrow> string \<Rightarrow> bucket" where
  "Put b k v = b\<lparr>entries := put_entry k v (entries b)\<rparr>"

definition Delete :: "bucket \<Rightarrow> string \<Rightarrow> bucket" where
  "Delete b k = b\<lparr>entries := filter (\<lambda>e. fst e \<noteq> k) (entries b)\<rparr>"

definition CreateBucketIfNotExists :: "boltdb \<Rightarrow> string \<Rightarrow> error option \<times> boltdb" where
  "CreateBucketIfNotExists db n =
     (if n = [] then (Some (BoltError ErrBucketNameRequired), db)
      else (case db n of Some b \<Rightarrow> (None, db) | None \<Rightarrow> (None, db(n \<mapsto> empty_bucket))))"

definition CreateBucket :: "boltdb \<Rightarrow> string \<Rightarrow> error option \<times> boltdb" where
  "CreateBucket db n =
     (if n = [] then (Some (BoltError ErrBucketNameRequired), db)
      else (case db n of Some b \<Rightarrow> (Some (BoltError ErrBucketExists), db)
            | None \<Rightarrow> (None, db(n \<mapsto> empty_bucket))))"

definition DeleteBucket :: "boltdb \<Rightarrow> string \<Rightarrow> error option \<times> boltdb" where
  "DeleteBucket db n =
     (case db n of None \<Rightarrow> (Some (BoltError ErrBucketNotFound), db)
      | Some b \<Rightarrow> (None, db(n := None)))"

text \<open>
  \<^verbatim>\<open>db.Update(fn)\<close> runs the closure in a read-write transaction and commits when it returns
  nil, rolls back otherwise, also when the closure panics. The closure also returns what it
  did to the caller's memory, which no rollback undoes. \<^verbatim>\<open>db.View(fn)\<close> runs a closure that
  cannot write.
\<close>

definition bolt_Update ::
  "boltdb \<Rightarrow> (boltdb \<Rightarrow> error option \<times> 'm \<times> boltdb) \<Rightarrow> error option \<times> 'm \<times> boltdb" where
  "bolt_Update db fn =
     (case fn db of
        (None, m, db') \<Rightarrow> (None, m, db')
      | (Some e, m, db') \<Rightarrow> (Some e, m, db))"

definition bolt_View :: "boltdb \<Rightarrow> (boltdb \<Rightarrow> error option \<times> 'm) \<Rightarrow> error option \<times> 'm" where
  "bolt_View db fn = fn db"

subsection \<open>The table\<close>

text \<open>The struct \<^verbatim>\<open>table\<close>; its handle on the database is the \<open>boltdb\<close> that every
  operation takes and returns.\<close>

record table =
  recordType :: gotype
  name :: string
  bucketKey :: string
  idFieldIndex :: "nat option"

text \<open>\<^verbatim>\<open>idToKey\<close>: the base-10 text of the signed identifier.\<close>

definition idToKey :: "64 word \<Rightarrow> string" where
  "idToKey ident = FormatInt10 (sint ident)"

text \<open>The loop of \<^verbatim>\<open>newTable\<close> over the fields, from index \<open>i\<close>: the first field tagged
  \<^verbatim>\<open>id\<close> decides.\<close>

fun find_id_field ::
  "string \<Rightarrow> ((string \<times> string) \<times> string \<times> gotype) list \<Rightarrow> nat \<Rightarrow> error + nat" where
  "find_id_field tn [] i = Inl (NoIdField tn)"
| "find_id_field tn ((fname, tag, ftype) # fs) i =
     (if tag = ''id'' then
        (if Kind ftype \<noteq> Int64 then Inl (IdFieldNotInt64 tn (Kind ftype)) else Inr i)
      else find_id_field tn fs (Suc i))"

definition newTable :: "gotype \<Rightarrow> boltdb \<Rightarrow> (error + table) \<times> boltdb" where
  "newTable rt db =
     (if Kind rt \<noteq> Struct then (Inl (RecordTypeNotStruct (Kind rt)), db)
      else
        (case find_id_field (Name rt) (Fields rt) 0 of
           Inl e \<Rightarrow> (Inl e, db)
         | Inr i \<Rightarrow>
             (case bolt_Update db (\<lambda>tx. case CreateBucketIfNotExists tx (Name rt) of
                                          (err, tx') \<Rightarrow> (err, (), tx')) of
                (Some e, u, db') \<Rightarrow> (Inl e, db')
              | (None, u, db') \<Rightarrow>
                  (Inr \<lparr>recordType = rt, name = Name rt, bucketKey = Name rt,
                        idFieldIndex = Some i\<rparr>, db'))))"

text \<open>\<^verbatim>\<open>getBucket\<close>.\<close>

definition getBucket :: "table \<Rightarrow> boltdb \<Rightarrow> error + bucket" where
  "getBucket t tx =
     (case tx (bucketKey t) of None \<Rightarrow> Inl (UnknownTable (name t)) | Some b \<Rightarrow> Inr b)"

text \<open>
  \<^verbatim>\<open>validateType\<close>. The loop walks the expected kinds with the type of the argument; the two
  lists of the error are the kinds that the message joins with an arrow. The first line of
  the source takes \<^verbatim>\<open>reflect.ValueOf(record).Type()\<close>, which panics when the argument is the
  nil interface.
\<close>

fun check_kinds ::
  "gotype \<Rightarrow> kind list \<Rightarrow> kind list \<Rightarrow> kind list \<Rightarrow> error + gotype" where
  "check_kinds T [] expected actual = Inr T"
| "check_kinds T (k # ks) expected actual =
     (if Kind T \<noteq> k then Inl (InputKindMismatch (expected @ [k]) (actual @ [Kind T]))
      else if ks = [] then Inr T
      else (case Elem T of
              None \<Rightarrow> Inl Panic
            | Some T' \<Rightarrow> check_kinds T' ks (expected @ [k]) (actual @ [Kind T])))"

definition validateType :: "table \<Rightarrow> gotype \<Rightarrow> kind list \<Rightarrow> error option" where
  "validateType t argT kinds =
     (if Kind argT = Invalid then Some Panic
      else
        (case check_kinds argT kinds [] [] of
           Inl e \<Rightarrow> Some e
         | Inr T \<Rightarrow>
             if T \<noteq> recordType t then Some (RecordTypeMismatch T (name t))
             else if idFieldIndex t = None then Some (NoIdField (name t))
             else None))"

subsection \<open>The codec\<close>

text \<open>
  \<^verbatim>\<open>json.Marshal\<close> and \<^verbatim>\<open>json.Unmarshal\<close> belong to the standard library. Every operation
  takes the one it calls as a parameter. \<open>marshal\<close> gives the bytes of a record or an error.
  \<^verbatim>\<open>getAll\<close> decodes each value into a record it has just allocated: its \<open>unmarshal\<close> gives
  the record that the bytes decode to in a target that held nothing before, or an error.
  \<^verbatim>\<open>getById\<close> hands the caller's own pointer to \<^verbatim>\<open>json.Unmarshal\<close>, which decodes into what
  is there: its \<open>unmarshal\<close> takes the bytes and what the caller's record pointer holds
  (\<open>None\<close> is nil, for which a record is allocated) and gives the error and what the
  pointer holds afterwards, which on an error may be a record filled in part.
\<close>

type_synonym marshal_fn = "struct_val \<Rightarrow> error + string"
type_synonym unmarshal_fn = "string \<Rightarrow> error + struct_val"
type_synonym unmarshal_into_fn =
  "string \<Rightarrow> struct_val option \<Rightarrow> error option \<times> struct_val option"

subsection \<open>The operations\<close>

text \<open>
  \<^verbatim>\<open>getById\<close>. \<open>argT\<close> is the dynamic type of the argument \<^verbatim>\<open>record\<close>, \<open>old\<close> is what the
  record pointer behind it holds at the call (\<open>None\<close> is nil); the result is the error and
  what the pointer holds at the return. An entry is decoded into what the pointer holds.
\<close>

definition getById ::
  "unmarshal_into_fn \<Rightarrow> table \<Rightarrow> 64 word \<Rightarrow> gotype \<Rightarrow> struct_val option \<Rightarrow> boltdb
   \<Rightarrow> error option \<times> struct_val option" where
  "getById unmarshal t ident argT old db =
     (case validateType t argT [Ptr, Ptr, Struct] of
        Some e \<Rightarrow> (Some e, old)
      | None \<Rightarrow>
          bolt_View db (\<lambda>tx.
            case getBucket t tx of
              Inl e \<Rightarrow> (Some e, old)
            | Inr b \<Rightarrow>
                (case Get b (idToKey ident) of
                   Some recordJson \<Rightarrow> unmarshal recordJson old
                 | None \<Rightarrow> (None, None))))"

text \<open>The callback of \<^verbatim>\<open>bucket.ForEach\<close> in \<^verbatim>\<open>getAll\<close>, over the entries in key order: each
  value is decoded and appended; the first error stops the loop and the slice keeps what
  was appended.\<close>

fun decode_each ::
  "unmarshal_fn \<Rightarrow> (string \<times> string) list \<Rightarrow> struct_val list
   \<Rightarrow> error option \<times> struct_val list" where
  "decode_each unmarshal [] acc = (None, acc)"
| "decode_each unmarshal ((k, v) # es) acc =
     (case unmarshal v of
        Inl e \<Rightarrow> (Some e, acc)
      | Inr r \<Rightarrow> decode_each unmarshal es (acc @ [r]))"

text \<open>\<^verbatim>\<open>getAll\<close>; \<open>old\<close> is the slice behind the argument at the call.\<close>

definition getAll ::
  "unmarshal_fn \<Rightarrow> table \<Rightarrow> gotype \<Rightarrow> struct_val list \<Rightarrow> boltdb
   \<Rightarrow> error option \<times> struct_val list" where
  "getAll unmarshal t argT old db =
     (case validateType t argT [Ptr, Slice, Struct] of
        Some e \<Rightarrow> (Some e, old)
      | None \<Rightarrow>
          bolt_View db (\<lambda>tx.
            case getBucket t tx of
              Inl e \<Rightarrow> (Some e, old)
            | Inr b \<Rightarrow> decode_each unmarshal (entries b) []))"

text \<open>
  \<^verbatim>\<open>create\<close>. \<open>arg\<close> is the struct behind the pointer argument (\<open>None\<close>: a nil pointer, on
  which reflect panics); the result is the error, the struct at the return and the
  database. The closure writes the new identifier into the caller's struct before it
  looks for a conflict and before it encodes. When the write panics, the struct is as it
  was, and the transaction is rolled back while the panic passes through \<^verbatim>\<open>db.Update\<close>.
\<close>

definition create_tx ::
  "marshal_fn \<Rightarrow> table \<Rightarrow> nat \<Rightarrow> struct_val \<Rightarrow> boltdb \<Rightarrow> error option \<times> struct_val \<times> boltdb" where
  "create_tx marshal t idx v tx =
     (case getBucket t tx of
        Inl e \<Rightarrow> (Some e, v, tx)
      | Inr b \<Rightarrow>
          (case NextSequence b of
             (newSequence, b1) \<Rightarrow>
               (let tx1 = tx(bucketKey t \<mapsto> b1)
                in case Field_SetInt (recordType t) v idx newSequence of
                     None \<Rightarrow> (Some Panic, v, tx1)
                   | Some v1 \<Rightarrow>
                       (let key = idToKey newSequence
                        in case Get b1 key of
                             Some oldRecord \<Rightarrow>
                               (Some (AlreadyExists (name t) newSequence oldRecord), v1, tx1)
                           | None \<Rightarrow>
                               (case marshal v1 of
                                  Inl e \<Rightarrow> (Some e, v1, tx1)
                                | Inr recordJson \<Rightarrow>
                                    (None, v1, tx(bucketKey t \<mapsto> Put b1 key recordJson)))))))"

definition create ::
  "marshal_fn \<Rightarrow> table \<Rightarrow> gotype \<Rightarrow> struct_val option \<Rightarrow> boltdb
   \<Rightarrow> error option \<times> struct_val option \<times> boltdb" where
  "create marshal t argT arg db =
     (case validateType t argT [Ptr, Struct] of
        Some e \<Rightarrow> (Some e, arg, db)
      | None \<Rightarrow>
          (case (arg, idFieldIndex t) of
             (Some v, Some idx) \<Rightarrow>
               (case Field_Int v idx of
                  None \<Rightarrow> (Some Panic, arg, db)
                | Some ident \<Rightarrow>
                    if ident \<noteq> 0 then (Some (CreateNonZeroId (name t) ident), arg, db)
                    else (case bolt_Update db (create_tx marshal t idx v) of
                            (err, v', db') \<Rightarrow> (err, Some v', db')))
           | _ \<Rightarrow> (Some Panic, arg, db)))"

text \<open>\<^verbatim>\<open>update\<close>.\<close>

definition update_tx ::
  "marshal_fn \<Rightarrow> table \<Rightarrow> 64 word \<Rightarrow> struct_val \<Rightarrow> boltdb \<Rightarrow> error option \<times> unit \<times> boltdb" where
  "update_tx marshal t ident v tx =
     (case getBucket t tx of
        Inl e \<Rightarrow> (Some e, (), tx)
      | Inr b \<Rightarrow>
          (let key = idToKey ident
           in case Get b key of
                None \<Rightarrow> (Some (UpdateNonExistent (name t) ident), (), tx)
              | Some oldRecord \<Rightarrow>
                  (case marshal v of
                     Inl e \<Rightarrow> (Some e, (), tx)
                   | Inr recordJson \<Rightarrow> (None, (), tx(bucketKey t \<mapsto> Put b key recordJson)))))"

definition update ::
  "marshal_fn \<Rightarrow> table \<Rightarrow> gotype \<Rightarrow> struct_val option \<Rightarrow> boltdb \<Rightarrow> error option \<times> boltdb" where
  "update marshal t argT arg db =
     (case validateType t argT [Ptr, Struct] of
        Some e \<Rightarrow> (Some e, db)
      | None \<Rightarrow>
          (case (arg, idFieldIndex t) of
             (Some v, Some idx) \<Rightarrow>
               (case Field_Int v idx of
                  None \<Rightarrow> (Some Panic, db)
                | Some ident \<Rightarrow>
                    if ident = 0 then (Some (UpdateZeroId (name t)), db)
                    else (case bolt_Update db (update_tx marshal t ident v) of
                            (err, u, db') \<Rightarrow> (err, db')))
           | _ \<Rightarrow> (Some Panic, db)))"

text \<open>\<^verbatim>\<open>delete\<close>.\<close>

definition delete_tx :: "table \<Rightarrow> 64 word \<Rightarrow> boltdb \<Rightarrow> error option \<times> unit \<times> boltdb" where
  "delete_tx t ident tx =
     (case getBucket t tx of
        Inl e \<Rightarrow> (Some e, (), tx)
      | Inr b \<Rightarrow>
          (let key = idToKey ident
           in case Get b key of
                None \<Rightarrow> (Some (DeleteNonExistent (name t) ident), (), tx)
              | Some oldRecord \<Rightarrow> (None, (), tx(bucketKey t \<mapsto> Delete b key))))"

definition delete :: "table \<Rightarrow> 64 word \<Rightarrow> boltdb \<Rightarrow> error option \<times> boltdb" where
  "delete t ident db =
     (case bolt_Update db (delete_tx t ident) of (err, u, db') \<Rightarrow> (err, db'))"

text \<open>\<^verbatim>\<open>truncate\<close>: the bucket is deleted and created again in one transaction.\<close>

definition truncate_tx :: "table \<Rightarrow> boltdb \<Rightarrow> error option \<times> unit \<times> boltdb" where
  "truncate_tx t tx =
     (case getBucket t tx of
        Inl e \<Rightarrow> (Some e, (), tx)
      | Inr b \<Rightarrow>
          (case DeleteBucket tx (bucketKey t) of
             (Some e, tx1) \<Rightarrow> (Some e, (), tx1)
           | (None, tx1) \<Rightarrow>
               (case CreateBucket tx1 (bucketKey t) of (err, tx2) \<Rightarrow> (err, (), tx2))))"

definition truncate :: "table \<Rightarrow> boltdb \<Rightarrow> error option \<times> boltdb" where
  "truncate t db =
     (case bolt_Update db (truncate_tx t) of (err, u, db') \<Rightarrow> (err, db'))"

subsection \<open>Histories of calls\<close>

text \<open>
  A caller's history is a list of calls on one table. \<open>step\<close> makes one call and returns
  its error, the struct it leaves behind the caller's pointer, and the database.
  \<open>created_id\<close> reads the identifier that a successful \<^verbatim>\<open>create\<close> wrote into the caller's
  struct, and \<open>run\<close> collects these identifiers in the order of the calls.
\<close>

datatype call =
    Create gotype "struct_val option"
  | Update gotype "struct_val option"
  | DeleteId "64 word"
  | Truncate

fun step ::
  "marshal_fn \<Rightarrow> table \<Rightarrow> call \<Rightarrow> boltdb \<Rightarrow> error option \<times> struct_val option \<times> boltdb" where
  "step m t (Create argT arg) db = create m t argT arg db"
| "step m t (Update argT arg) db = (case update m t argT arg db of (err, db') \<Rightarrow> (err, arg, db'))"
| "step m t (DeleteId ident) db = (case delete t ident db of (err, db') \<Rightarrow> (err, None, db'))"
| "step m t Truncate db = (case truncate t db of (err, db') \<Rightarrow> (err, None, db'))"

fun created_id :: "table \<Rightarrow> call \<Rightarrow> error option \<times> struct_val option \<times> boltdb \<Rightarrow> 64 word list" where
  "created_id t (Create argT arg) (None, Some v, db) =
     (case idFieldIndex t of
        Some idx \<Rightarrow> (case Field_Int v idx of Some w \<Rightarrow> [w] | None \<Rightarrow> [])
      | None \<Rightarrow> [])"
| "created_id t c r = []"

fun run :: "marshal_fn \<Rightarrow> table \<Rightarrow> call list \<Rightarrow> boltdb \<Rightarrow> 64 word list \<times> boltdb" where
  "run m t [] db = ([], db)"
| "run m t (c # cs) db =
     (case step m t c db of
        (err, v, db') \<Rightarrow>
          (case run m t cs db' of
             (ids, db'') \<Rightarrow> (created_id t c (err, v, db') @ ids, db'')))"

text \<open>The calls that a property about \<^verbatim>\<open>create\<close> quantifies over: a \<^verbatim>\<open>create\<close> gets a pointer
  to a record of the table's type whose identifier field is 0 and can be set, and which the
  codec encodes under every identifier; \<^verbatim>\<open>update\<close> and \<^verbatim>\<open>delete\<close> are called with anything.\<close>

fun create_ready :: "marshal_fn \<Rightarrow> table \<Rightarrow> call \<Rightarrow> bool" where
  "create_ready m t (Create argT arg) =
     (argT = TPtr (recordType t) \<and>
      (case (arg, idFieldIndex t) of
         (Some v, Some idx) \<Rightarrow>
           Field_Int v idx = Some 0 \<and> CanSet (recordType t) idx \<and>
           (\<forall>w. \<exists>js. m (v[idx := VInt64 w]) = Inr js)
       | _ \<Rightarrow> False))"
| "create_ready m t c = True"

fun is_Truncate :: "call \<Rightarrow> bool" where
  "is_Truncate Truncate = True"
| "is_Truncate c = False"

fun is_Create :: "call \<Rightarrow> bool" where
  "is_Create (Create argT arg) = True"
| "is_Create c = False"

subsection \<open>The state of a registered table\<close>

text \<open>
  What registration establishes, and what every operation keeps as long as the counter has
  not run through its 64 bits: the table is a struct type with its identifier field
  located, its bucket exists, the keys of the bucket are in ascending order, and each key
  is the text of an identifier between 1 and the bucket's counter.
\<close>

definition keys_assigned :: "bucket \<Rightarrow> bool" where
  "keys_assigned b =
     (\<forall>k \<in> set (map fst (entries b)).
        k \<in> (\<lambda>j. idToKey (word_of_nat j)) ` {1..unat (sequence b)})"

definition table_inv :: "table \<Rightarrow> boltdb \<Rightarrow> bool" where
  "table_inv t db =
     (Kind (recordType t) = Struct \<and> idFieldIndex t \<noteq> None \<and>
      (case db (bucketKey t) of
         None \<Rightarrow> False
       | Some b \<Rightarrow> keys_assigned b \<and> sorted_wrt (<) (map fst (entries b))))"

subsection \<open>A record type and a codec for the examples\<close>

text \<open>
  The record type of the specification's scenario, an identifier and a name, and a small
  text codec for it that stands in for \<^verbatim>\<open>encoding/json\<close> in the examples.
\<close>

definition Rec :: gotype where
  "Rec = TStruct ''Rec''
           [((''Id'', []), ''id'', TOther Int64), ((''Name'', []), [], TOther String)]"

definition rec_marshal :: marshal_fn where
  "rec_marshal v =
     (case v of
        [VInt64 i, VString s] \<Rightarrow> Inr (idToKey i @ CHR '','' # s)
      | _ \<Rightarrow> Inl (JsonError ''unsupported value''))"

definition digit_value :: "char \<Rightarrow> nat option" where
  "digit_value c = (if c \<in> set ''0123456789'' then Some (of_char c - 48) else None)"

fun parse_nat :: "string \<Rightarrow> nat \<Rightarrow> nat option" where
  "parse_nat [] a = Some a"
| "parse_nat (c # cs) a =
     (case digit_value c of None \<Rightarrow> None | Some d \<Rightarrow> parse_nat cs (10 * a + d))"

definition rec_unmarshal :: unmarshal_fn where
  "rec_unmarshal s =
     (let ds = takeWhile (\<lambda>c. c \<noteq> CHR '','') s; rest = dropWhile (\<lambda>c. c \<noteq> CHR '','') s
      in if ds = [] \<or> rest = [] then Inl (JsonError ''unexpected end of input'')
         else (case parse_nat ds 0 of
                 None \<Rightarrow> Inl (JsonError ''invalid character'')
               | Some n \<Rightarrow> Inr [VInt64 (word_of_nat n), VString (tl rest)]))"

text \<open>The decoder of \<^verbatim>\<open>getById\<close> for this codec: an encoding carries both fields, so
  decoding into a record that is already there overwrites all of it.\<close>

definition rec_unmarshal_into :: unmarshal_into_fn where
  "rec_unmarshal_into s old =
     (case rec_unmarshal s of Inl e \<Rightarrow> (Some e, old) | Inr r \<Rightarrow> (None, Some r))"

text \<open>The table that \<^verbatim>\<open>newTable\<close> returns for \<open>Rec\<close>, and the database it leaves when it is
  called on an empty one.\<close>

definition rec_table :: table where
  "rec_table = \<lparr>recordType = Rec, name = ''Rec'', bucketKey = ''Rec'', idFieldIndex = Some 0\<rparr>"

definition rec_db :: boltdb where
  "rec_db = Map.empty(''Rec'' \<mapsto> empty_bucket)"

text \<open>A record type whose identifier field is tagged and of kind \<^verbatim>\<open>int64\<close> but unexported,
  with the table that \<^verbatim>\<open>newTable\<close> returns for it.\<close>

definition Hid :: gotype where
  "Hid = TStruct ''Hid'' [((''id'', ''model''), ''id'', TOther Int64)]"

definition hid_table :: table where
  "hid_table = \<lparr>recordType = Hid, name = ''Hid'', bucketKey = ''Hid'', idFieldIndex = Some 0\<rparr>"

section \<open>Lemmas\<close>

subsection \<open>Decimal keys\<close>

lemma lt10_cases: "d < 10 \<Longrightarrow> d \<in> {0, 1, 2, 3, 4, 5, 6, 7, 8, 9::nat}"
  by auto

lemma digit_in_digits: "d < 10 \<Longrightarrow> digit d \<in> set ''0123456789''"
  using lt10_cases [of d] by (auto simp: digit_def)

lemma digit_inj: "d < 10 \<Longrightarrow> e < 10 \<Longrightarrow> digit d = digit e \<Longrightarrow> d = e"
  using lt10_cases [of d] lt10_cases [of e] by (auto simp: digit_def)

lemma dec_not_Nil: "dec n \<noteq> []"
  by (subst dec.simps) simp

lemma dec_digits: "set (dec n) \<subseteq> set ''0123456789''"
proof (induction n rule: dec.induct)
  case (1 n)
  show ?case
  proof (cases "n < 10")
    case True
    then show ?thesis using digit_in_digits [of n] by (subst dec.simps) simp
  next
    case False
    have "n mod 10 < 10" by simp
    then have "digit (n mod 10) \<in> set ''0123456789''" by (rule digit_in_digits)
    with False 1 show ?thesis by (subst dec.simps) simp
  qed
qed

lemma dec_inj: "dec n = dec m \<Longrightarrow> n = m"
proof (induction n arbitrary: m rule: dec.induct)
  case (1 n)
  show ?case
  proof (cases "n < 10")
    case n: True
    show ?thesis
    proof (cases "m < 10")
      case True
      with n 1(2) show ?thesis
        by (simp add: dec.simps [of n] dec.simps [of m] digit_inj)
    next
      case False
      with n 1(2) dec_not_Nil [of "m div 10"] show ?thesis
        by (simp add: dec.simps [of n] dec.simps [of m])
    qed
  next
    case n: False
    show ?thesis
    proof (cases "m < 10")
      case True
      with n 1(2) dec_not_Nil [of "n div 10"] show ?thesis
        by (simp add: dec.simps [of n] dec.simps [of m])
    next
      case False
      with n 1(2) have e: "dec (n div 10) = dec (m div 10)" "digit (n mod 10) = digit (m mod 10)"
        by (simp_all add: dec.simps [of n] dec.simps [of m])
      from 1(1) [OF n e(1)] have "n div 10 = m div 10" .
      moreover from e(2) have "n mod 10 = m mod 10" by (intro digit_inj) simp_all
      ultimately show ?thesis by (metis div_mult_mod_eq)
    qed
  qed
qed

lemma FormatInt10_inj: "FormatInt10 i = FormatInt10 j \<Longrightarrow> i = j"
proof -
  assume a: "FormatInt10 i = FormatInt10 j"
  have nm: "\<And>n. CHR ''-'' \<notin> set (dec n)" using dec_digits by fastforce
  have hd: "\<And>n m. CHR ''-'' # dec n \<noteq> dec m"
    using nm by (metis list.set_intros(1))
  show ?thesis
  proof (cases "i < 0"; cases "j < 0")
    assume "i < 0" "j < 0"
    with a have "nat (- i) = nat (- j)" by (simp add: FormatInt10_def dec_inj)
    with \<open>i < 0\<close> \<open>j < 0\<close> show ?thesis by simp
  next
    assume "i < 0" "\<not> j < 0"
    with a hd show ?thesis by (simp add: FormatInt10_def)
  next
    assume "\<not> i < 0" "j < 0"
    with a hd [of "nat (- j)" "nat i"] show ?thesis by (simp add: FormatInt10_def)
  next
    assume "\<not> i < 0" "\<not> j < 0"
    with a have "nat i = nat j" by (simp add: FormatInt10_def dec_inj)
    with \<open>\<not> i < 0\<close> \<open>\<not> j < 0\<close> show ?thesis by simp
  qed
qed

lemma idToKey_inj: "idToKey a = idToKey b \<longleftrightarrow> a = b"
proof
  assume "idToKey a = idToKey b"
  then have "sint a = sint b" unfolding idToKey_def by (rule FormatInt10_inj)
  then show "a = b" by (rule signed_word_eqI)
qed simp

subsection \<open>Bucket entries, shapes and the counter\<close>

lemma map_of_put_entry: "map_of (put_entry k v es) k' = (if k' = k then Some v else map_of es k')"
  by (induction es) auto

lemma keys_put_entry: "fst ` set (put_entry k v es) = insert k (fst ` set es)"
  by (induction k v es rule: put_entry.induct) (auto simp: insert_commute)

lemma sorted_put_entry:
  "sorted_wrt (<) (map fst es) \<Longrightarrow> sorted_wrt (<) (map fst (put_entry k v es))"
proof (induction es)
  case Nil
  then show ?case by simp
next
  case (Cons e es)
  obtain k' v' where e: "e = (k', v')" by (cases e)
  from Cons.prems have tl: "sorted_wrt (<) (map fst es)" and hd: "\<forall>x\<in>set es. k' < fst x"
    by (simp_all add: e)
  show ?case
  proof (cases "k < k'")
    case True
    with hd have "\<forall>x\<in>set es. k < fst x" by (meson less_trans)
    with True tl hd show ?thesis by (simp add: e)
  next
    case False
    show ?thesis
    proof (cases "k = k'")
      case True
      with tl hd show ?thesis by (simp add: e)
    next
      case ne: False
      with False have "k' < k" by simp
      moreover have "\<forall>x\<in>fst ` set (put_entry k v es). k' < x"
        using hd \<open>k' < k\<close> by (simp add: keys_put_entry)
      ultimately show ?thesis using False ne Cons.IH [OF tl] by (simp add: e)
    qed
  qed
qed

lemma map_of_delete_entry:
  "map_of (filter (\<lambda>e. fst e \<noteq> k) es) k' = (if k' = k then None else map_of es k')"
  by (induction es) auto

lemma sorted_delete_entry:
  "sorted_wrt (<) (map fst es) \<Longrightarrow> sorted_wrt (<) (map fst (filter (\<lambda>e. fst e \<noteq> k) es))"
  by (induction es) auto

lemma Get_None_iff: "Get b k = None \<longleftrightarrow> k \<notin> set (map fst (entries b))"
  by (simp add: Get_def map_of_eq_None_iff)

lemma validateType_ptr_struct:
  "Kind T = Struct \<Longrightarrow>
   validateType t (TPtr T) [Ptr, Struct] =
     (if T \<noteq> recordType t then Some (RecordTypeMismatch T (name t))
      else if idFieldIndex t = None then Some (NoIdField (name t)) else None)"
  by (simp add: validateType_def)

lemma validateType_ptr_ptr_struct:
  "Kind T = Struct \<Longrightarrow>
   validateType t (TPtr (TPtr T)) [Ptr, Ptr, Struct] =
     (if T \<noteq> recordType t then Some (RecordTypeMismatch T (name t))
      else if idFieldIndex t = None then Some (NoIdField (name t)) else None)"
  by (simp add: validateType_def)

lemma validateType_ptr_slice_struct:
  "Kind T = Struct \<Longrightarrow>
   validateType t (TPtr (TSlice T)) [Ptr, Slice, Struct] =
     (if T \<noteq> recordType t then Some (RecordTypeMismatch T (name t))
      else if idFieldIndex t = None then Some (NoIdField (name t)) else None)"
  by (simp add: validateType_def)

lemma unat_seq_bound: "unat (w :: 64 word) < 2 ^ 64"
  using unsigned_less [of w, where 'a = nat] by simp

lemma unat_word_of_nat_64: "j < 2 ^ 64 \<Longrightarrow> unat (word_of_nat j :: 64 word) = j"
  by (simp add: unat_of_nat)

lemma unat_succ_mod: "unat (w + 1 :: 64 word) = (unat w + 1) mod 2 ^ 64"
  by (simp add: unat_word_ariths)

lemma unat_succ: "unat (w :: 64 word) < 2 ^ 64 - 1 \<Longrightarrow> unat (w + 1) = Suc (unat w)"
  by (simp add: unat_succ_mod)

lemma sint_small: "unat (w :: 64 word) < 2 ^ 63 \<Longrightarrow> sint w = int (unat w)"
proof -
  assume a: "unat w < 2 ^ 63"
  have s: "sint w = signed_take_bit (63::nat) (uint w)"
    by (simp add: sint_uint)
  have "int (unat w) < int (2 ^ 63)" using a by (simp only: of_nat_less_iff)
  then have lt: "uint w < 2 ^ 63" by simp
  have ge: "- (2 ^ 63) \<le> uint w"
  proof -
    have "(0::int) \<le> uint w" by simp
    moreover have "- (2 ^ 63) \<le> (0::int)" by simp
    ultimately show ?thesis by (rule order_trans [rotated])
  qed
  have "signed_take_bit (63::nat) (uint w) = uint w"
    using ge lt by (rule signed_take_bit_int_eq_self)
  with s show ?thesis by simp
qed


lemma fresh_key:
  assumes "keys_assigned b"
  shows "Get b (idToKey (sequence b + 1)) = None"
proof -
  have "idToKey (sequence b + 1) \<notin> set (map fst (entries b))"
  proof
    assume "idToKey (sequence b + 1) \<in> set (map fst (entries b))"
    with assms obtain j where j: "1 \<le> j" "j \<le> unat (sequence b)"
      "idToKey (sequence b + 1) = idToKey (word_of_nat j)"
      unfolding keys_assigned_def by force
    then have e: "sequence b + 1 = word_of_nat j" by (simp add: idToKey_inj)
    have sb: "unat (sequence b) < 2 ^ 64" by (rule unat_seq_bound)
    then have jb: "j < 2 ^ 64" using j(2) by simp
    then have uj: "(unat (sequence b) + 1) mod 2 ^ 64 = j"
      using e unat_succ_mod [of "sequence b"] by (simp add: unat_word_of_nat_64)
    show False
    proof (cases "unat (sequence b) + 1 < 2 ^ 64")
      case True
      then show False using uj j(2) by simp
    next
      case False
      then have "unat (sequence b) + 1 = 2 ^ 64" using sb by simp
      then show False using uj j(1) by simp
    qed
  qed
  then show ?thesis by (simp add: Get_None_iff)
qed

subsection \<open>The transactions, case by case\<close>

lemma create_cases:
  assumes "create m t argT arg db = (err, arg', db')" and "db (bucketKey t) = Some b"
  shows "(err \<noteq> None \<and> db' = db) \<or>
         (err = None \<and>
          (\<exists>v idx js. arg = Some v \<and> idFieldIndex t = Some idx \<and> Field_Int v idx = Some 0 \<and>
             CanSet (recordType t) idx \<and>
             arg' = Some (v[idx := VInt64 (sequence b + 1)]) \<and>
             m (v[idx := VInt64 (sequence b + 1)]) = Inr js \<and>
             db' = db(bucketKey t \<mapsto>
                      Put (b\<lparr>sequence := sequence b + 1\<rparr>) (idToKey (sequence b + 1)) js)))"
  using assms
  by (auto simp: create_def create_tx_def bolt_Update_def getBucket_def NextSequence_def Let_def
           Field_SetInt_def
           split: option.splits sum.splits prod.splits if_splits)

lemma create_ok:
  assumes "db (bucketKey t) = Some b" and "keys_assigned b"
    and "idFieldIndex t = Some idx" and "Kind (recordType t) = Struct"
    and "Field_Int v idx = Some 0" and "CanSet (recordType t) idx"
    and "m (v[idx := VInt64 (sequence b + 1)]) = Inr js"
  shows "create m t (TPtr (recordType t)) (Some v) db =
           (None, Some (v[idx := VInt64 (sequence b + 1)]),
            db(bucketKey t \<mapsto> Put (b\<lparr>sequence := sequence b + 1\<rparr>) (idToKey (sequence b + 1)) js))"
proof -
  have g: "Get (b\<lparr>sequence := sequence b + 1\<rparr>) (idToKey (sequence b + 1)) = None"
    using fresh_key [OF assms(2)] by (simp add: Get_def)
  show ?thesis
    using assms g
    by (simp add: create_def create_tx_def bolt_Update_def getBucket_def NextSequence_def Let_def
        validateType_ptr_struct Field_SetInt_def)
qed

lemma update_cases:
  assumes "update m t argT arg db = (err, db')" and "db (bucketKey t) = Some b"
  shows "(err \<noteq> None \<and> db' = db) \<or>
         (err = None \<and>
          (\<exists>v idx ident js old. arg = Some v \<and> idFieldIndex t = Some idx \<and>
             Field_Int v idx = Some ident \<and> ident \<noteq> 0 \<and>
             Get b (idToKey ident) = Some old \<and> m v = Inr js \<and>
             db' = db(bucketKey t \<mapsto> Put b (idToKey ident) js)))"
  using assms
  by (auto simp: update_def update_tx_def bolt_Update_def getBucket_def Let_def
           split: option.splits sum.splits prod.splits if_splits)

lemma delete_cases:
  assumes "db (bucketKey t) = Some b"
  shows "delete t ident db =
           (case Get b (idToKey ident) of
              None \<Rightarrow> (Some (DeleteNonExistent (name t) ident), db)
            | Some old \<Rightarrow> (None, db(bucketKey t \<mapsto> Delete b (idToKey ident))))"
  using assms
  by (simp add: delete_def delete_tx_def bolt_Update_def getBucket_def Let_def
           split: option.splits)

lemma truncate_cases:
  assumes "db (bucketKey t) = Some b"
  shows "truncate t db =
           (if bucketKey t = [] then (Some (BoltError ErrBucketNameRequired), db)
            else (None, db(bucketKey t \<mapsto> empty_bucket)))"
  using assms
  by (simp add: truncate_def truncate_tx_def bolt_Update_def getBucket_def DeleteBucket_def
        CreateBucket_def)

subsection \<open>The state of a registered table is kept\<close>

lemma keys_assigned_Put_new:
  assumes "keys_assigned b" and "unat (sequence b) < 2 ^ 64 - 1"
  shows "keys_assigned (Put (b\<lparr>sequence := sequence b + 1\<rparr>) (idToKey (sequence b + 1)) js)"
proof -
  let ?f = "\<lambda>j. idToKey (word_of_nat j :: 64 word)"
  have u: "unat (sequence b + 1) = Suc (unat (sequence b))" using assms(2) by (rule unat_succ)
  have "sequence b + 1 = word_of_nat (Suc (unat (sequence b)))"
    by (simp add: add.commute)
  then have new: "idToKey (sequence b + 1) \<in> ?f ` {1..Suc (unat (sequence b))}"
    by (metis (no_types, lifting) atLeastAtMost_iff imageI le_refl Suc_le_mono le0 One_nat_def)
  have old: "\<And>k. k \<in> fst ` set (entries b) \<Longrightarrow> k \<in> ?f ` {1..Suc (unat (sequence b))}"
  proof -
    fix k assume "k \<in> fst ` set (entries b)"
    with assms(1) have "k \<in> ?f ` {1..unat (sequence b)}" by (auto simp: keys_assigned_def)
    moreover have "{1..unat (sequence b)} \<subseteq> {1..Suc (unat (sequence b))}" by auto
    ultimately show "k \<in> ?f ` {1..Suc (unat (sequence b))}" by blast
  qed
  show ?thesis
    unfolding keys_assigned_def Put_def using new old
    by (auto simp: keys_put_entry u)
qed

lemma keys_assigned_Put_old:
  assumes "keys_assigned b" and "Get b k = Some old"
  shows "keys_assigned (Put b k js)"
proof -
  from assms(2) have "k \<in> fst ` set (entries b)"
    by (metis Get_None_iff list.set_map option.distinct(1))
  then have "insert k (fst ` set (entries b)) = fst ` set (entries b)" by auto
  with assms(1) show ?thesis
    by (simp add: keys_assigned_def Put_def keys_put_entry)
qed

lemma keys_assigned_Delete: "keys_assigned b \<Longrightarrow> keys_assigned (Delete b k)"
  by (auto simp: keys_assigned_def Delete_def)

lemma keys_assigned_empty: "keys_assigned empty_bucket"
  by (simp add: keys_assigned_def empty_bucket_def)

lemma table_inv_upd:
  "table_inv t db \<Longrightarrow> keys_assigned b' \<Longrightarrow> sorted_wrt (<) (map fst (entries b')) \<Longrightarrow>
   table_inv t (db(bucketKey t \<mapsto> b'))"
  by (auto simp: table_inv_def split: option.splits)

text \<open>One call that is not a \<^verbatim>\<open>truncate\<close>, on a registered table whose counter is below its
  last value: the table stays registered, and the counter moves only when the call is a
  \<^verbatim>\<open>create\<close> that succeeds.\<close>

lemma step_inv:
  assumes inv: "table_inv t db" and b: "db (bucketKey t) = Some b"
    and rng: "unat (sequence b) < 2 ^ 64 - 1" and nt: "\<not> is_Truncate c"
    and r: "step m t c db = (err, v, db')"
  shows "\<exists>b'. db' (bucketKey t) = Some b' \<and> table_inv t db' \<and>
           ((created_id t c (err, v, db') = [] \<and> sequence b' = sequence b) \<or>
            (created_id t c (err, v, db') = [sequence b + 1] \<and> sequence b' = sequence b + 1
              \<and> is_Create c \<and> err = None))"
proof -
  from inv b have ka: "keys_assigned b" and so: "sorted_wrt (<) (map fst (entries b))"
    by (auto simp: table_inv_def)
  show ?thesis
  proof (cases c)
    case (Create argT arg)
    with r have cr: "create m t argT arg db = (err, v, db')" by simp
    from create_cases [where db = db and t = t, OF cr b] show ?thesis
    proof
      assume "err \<noteq> None \<and> db' = db"
      then show ?thesis using inv b Create by (cases err) auto
    next
      assume "err = None \<and>
          (\<exists>va idx js. arg = Some va \<and> idFieldIndex t = Some idx \<and> Field_Int va idx = Some 0 \<and>
             CanSet (recordType t) idx \<and>
             v = Some (va[idx := VInt64 (sequence b + 1)]) \<and>
             m (va[idx := VInt64 (sequence b + 1)]) = Inr js \<and>
             db' = db(bucketKey t \<mapsto>
                      Put (b\<lparr>sequence := sequence b + 1\<rparr>) (idToKey (sequence b + 1)) js))"
      then obtain va idx js where s: "err = None" "arg = Some va" "idFieldIndex t = Some idx"
        "Field_Int va idx = Some 0" "v = Some (va[idx := VInt64 (sequence b + 1)])"
        "db' = db(bucketKey t \<mapsto>
                      Put (b\<lparr>sequence := sequence b + 1\<rparr>) (idToKey (sequence b + 1)) js)"
        by blast
      let ?b' = "Put (b\<lparr>sequence := sequence b + 1\<rparr>) (idToKey (sequence b + 1)) js"
      have k': "keys_assigned ?b'" using ka rng by (rule keys_assigned_Put_new)
      have s': "sorted_wrt (<) (map fst (entries ?b'))"
        using so by (simp add: Put_def sorted_put_entry)
      have i': "table_inv t db'" unfolding s(6) using inv k' s' by (rule table_inv_upd)
      have f: "Field_Int (va[idx := VInt64 (sequence b + 1)]) idx = Some (sequence b + 1)"
        using s(4) by (auto simp: Field_Int_def split: if_splits)
      show ?thesis
        using i' f s Create by (simp add: Put_def)
    qed
  next
    case (Update argT arg)
    with r obtain e where up: "update m t argT arg db = (e, db')" and [simp]: "err = e"
      by (auto split: prod.splits)
    from update_cases [where db = db and t = t, OF up b] show ?thesis
    proof
      assume "e \<noteq> None \<and> db' = db"
      then show ?thesis using inv b Update by auto
    next
      assume "e = None \<and>
          (\<exists>v idx ident js old. arg = Some v \<and> idFieldIndex t = Some idx \<and>
             Field_Int v idx = Some ident \<and> ident \<noteq> 0 \<and>
             Get b (idToKey ident) = Some old \<and> m v = Inr js \<and>
             db' = db(bucketKey t \<mapsto> Put b (idToKey ident) js))"
      then obtain ident js old where s: "Get b (idToKey ident) = Some old"
        "db' = db(bucketKey t \<mapsto> Put b (idToKey ident) js)" by blast
      have k': "keys_assigned (Put b (idToKey ident) js)" using ka s(1) by (rule keys_assigned_Put_old)
      have s': "sorted_wrt (<) (map fst (entries (Put b (idToKey ident) js)))"
        using so by (simp add: Put_def sorted_put_entry)
      have "table_inv t db'" unfolding s(2) using inv k' s' by (rule table_inv_upd)
      then show ?thesis using s(2) Update by (simp add: Put_def)
    qed
  next
    case (DeleteId ident)
    show ?thesis
    proof (cases "Get b (idToKey ident)")
      case None
      with r DeleteId b inv show ?thesis by (auto simp: delete_cases [where db = db and t = t, OF b])
    next
      case (Some old)
      with r DeleteId have d: "db' = db(bucketKey t \<mapsto> Delete b (idToKey ident))"
        by (auto simp: delete_cases [where db = db and t = t, OF b])
      have k': "keys_assigned (Delete b (idToKey ident))" using ka by (rule keys_assigned_Delete)
      have s': "sorted_wrt (<) (map fst (entries (Delete b (idToKey ident))))"
        using so by (simp add: Delete_def sorted_delete_entry)
      have "table_inv t db'" unfolding d using inv k' s' by (rule table_inv_upd)
      then show ?thesis using d DeleteId by (simp add: Delete_def)
    qed
  next
    case Truncate
    with nt show ?thesis by simp
  qed
qed

lemma step_create_ready:
  assumes inv: "table_inv t db" and b: "db (bucketKey t) = Some b"
    and rdy: "create_ready m t c" and c: "is_Create c"
    and r: "step m t c db = (err, v, db')"
  shows "err = None \<and> created_id t c (err, v, db') = [sequence b + 1]"
proof -
  from c obtain argT arg where cc: "c = Create argT arg" by (cases c) auto
  from rdy cc obtain va idx where a: "argT = TPtr (recordType t)" "arg = Some va"
    "idFieldIndex t = Some idx" "Field_Int va idx = Some 0"
    "\<forall>w. \<exists>js. m (va[idx := VInt64 w]) = Inr js" "CanSet (recordType t) idx"
    by (auto split: option.splits)
  then obtain js where js: "m (va[idx := VInt64 (sequence b + 1)]) = Inr js" by blast
  from inv b have ka: "keys_assigned b" and st: "Kind (recordType t) = Struct"
    by (auto simp: table_inv_def)
  have f: "Field_Int (va[idx := VInt64 (sequence b + 1)]) idx = Some (sequence b + 1)"
    using a(4) by (auto simp: Field_Int_def split: if_splits)
  from create_ok [where db = db and t = t and m = m, OF b ka a(3) st a(4) a(6) js] r cc a f
  show ?thesis by auto
qed

text \<open>Registration on a database that has no bucket of the type's name yet leaves a
  registered table.\<close>

lemma newTable_registers:
  assumes "newTable rt db = (Inr t, db')" and "db (Name rt) = None"
  shows "table_inv t db' \<and> db' (bucketKey t) = Some empty_bucket"
proof -
  from assms(1) have k: "Kind rt = Struct"
    by (auto simp: newTable_def split: if_splits)
  from assms(1) k obtain i where i: "find_id_field (Name rt) (Fields rt) 0 = Inr i"
    by (auto simp: newTable_def split: sum.splits)
  from assms k i have t: "t = \<lparr>recordType = rt, name = Name rt, bucketKey = Name rt,
                        idFieldIndex = Some i\<rparr>" and d: "db' = db(Name rt \<mapsto> empty_bucket)"
    by (auto simp: newTable_def bolt_Update_def CreateBucketIfNotExists_def
        split: if_splits)
  show ?thesis
    using k keys_assigned_empty by (simp add: t d table_inv_def empty_bucket_def)
qed

subsection \<open>Histories without truncation\<close>

lemma upt_shift: "map (\<lambda>k. f (Suc k)) [1..<Suc n] = map f [2..<Suc (Suc n)]"
proof -
  have "map f (map Suc [1..<Suc n]) = map f [Suc 1..<Suc (Suc n)]"
    by (simp only: map_Suc_upt)
  then show ?thesis by (simp add: comp_def numeral_2_eq_2)
qed

lemma run_ids:
  assumes "table_inv t db" and "db (bucketKey t) = Some b"
    and "\<forall>c\<in>set cs. create_ready m t c \<and> \<not> is_Truncate c"
    and "unat (sequence b) + length cs < 2 ^ 63"
  shows "\<exists>b'. snd (run m t cs db) (bucketKey t) = Some b' \<and> table_inv t (snd (run m t cs db)) \<and>
           fst (run m t cs db) =
             map (\<lambda>k. sequence b + word_of_nat k) [1..<Suc (length (filter is_Create cs))] \<and>
           sequence b' = sequence b + word_of_nat (length (filter is_Create cs))"
  using assms
proof (induction cs arbitrary: db b)
  case Nil
  then show ?case by simp
next
  case (Cons c cs)
  obtain err v db1 where st: "step m t c db = (err, v, db1)" by (cases "step m t c db")
  have rng: "unat (sequence b) < 2 ^ 64 - 1" using Cons.prems(4) by simp
  have nt: "\<not> is_Truncate c" and rdy: "create_ready m t c" using Cons.prems(3) by simp_all
  from step_inv [OF Cons.prems(1,2) rng nt st] obtain b1 where
    b1: "db1 (bucketKey t) = Some b1" and inv1: "table_inv t db1" and
    alt: "(created_id t c (err, v, db1) = [] \<and> sequence b1 = sequence b) \<or>
          (created_id t c (err, v, db1) = [sequence b + 1] \<and> sequence b1 = sequence b + 1
             \<and> is_Create c \<and> err = None)"
    by blast
  have rest: "\<forall>c\<in>set cs. create_ready m t c \<and> \<not> is_Truncate c" using Cons.prems(3) by simp
  have u1: "unat (sequence b1) \<le> Suc (unat (sequence b))"
    using alt rng by (auto simp: unat_succ)
  then have rng1: "unat (sequence b1) + length cs < 2 ^ 63" using Cons.prems(4) by simp
  from Cons.IH [OF inv1 b1 rest rng1] obtain b' where
    ih: "snd (run m t cs db1) (bucketKey t) = Some b'" "table_inv t (snd (run m t cs db1))"
      "fst (run m t cs db1) =
         map (\<lambda>k. sequence b1 + word_of_nat k) [1..<Suc (length (filter is_Create cs))]"
      "sequence b' = sequence b1 + word_of_nat (length (filter is_Create cs))"
    by blast
  have r: "run m t (c # cs) db =
             (created_id t c (err, v, db1) @ fst (run m t cs db1), snd (run m t cs db1))"
    using st by (simp split: prod.splits)
  show ?case
  proof (cases "is_Create c")
    case True
    from step_create_ready [OF Cons.prems(1,2) rdy True st]
    have ci: "created_id t c (err, v, db1) = [sequence b + 1]" by blast
    with alt have s1: "sequence b1 = sequence b + 1" by auto
    let ?n = "length (filter is_Create cs)"
    have "map (\<lambda>k. sequence b + 1 + word_of_nat k) [1..<Suc ?n] =
          map (\<lambda>k. sequence b + word_of_nat (Suc k)) [1..<Suc ?n]"
      by (simp add: add.assoc add.commute)
    also have "\<dots> = map (\<lambda>k. sequence b + word_of_nat k) [2..<Suc (Suc ?n)]"
      by (rule upt_shift)
    finally have m: "map (\<lambda>k. sequence b + 1 + word_of_nat k) [1..<Suc ?n] =
          map (\<lambda>k. sequence b + word_of_nat k) [2..<Suc (Suc ?n)]" .
    have "[1..<Suc (Suc ?n)] = 1 # [2..<Suc (Suc ?n)]"
      by (simp add: upt_conv_Cons numeral_2_eq_2 del: upt_Suc)
    then have l: "map (\<lambda>k. sequence b + word_of_nat k) [1..<Suc (Suc ?n)] =
                  (sequence b + 1) # map (\<lambda>k. sequence b + word_of_nat k) [2..<Suc (Suc ?n)]"
      by simp
    show ?thesis
      using True ih r ci s1 m l by (simp add: add.assoc add.commute del: upt_Suc)
  next
    case False
    with alt have "created_id t c (err, v, db1) = []" "sequence b1 = sequence b" by auto
    with False ih r show ?thesis by simp
  qed
qed



subsection \<open>Shapes, fields and lookups\<close>



lemma Field_Int_SetInt:
  "Field_Int v idx = Some w \<Longrightarrow> Field_Int (v[idx := VInt64 w']) idx = Some w'"
  by (auto simp: Field_Int_def split: if_splits)


lemma Get_Delete_same: "Get (Delete b k) k = None"
  by (simp add: Get_def Delete_def map_of_delete_entry)

lemma find_id_field_find:
  "find_id_field tn fs i =
     (case find (\<lambda>f. fst (snd f) = ''id'') fs of
        None \<Rightarrow> Inl (NoIdField tn)
      | Some f \<Rightarrow>
          if Kind (snd (snd f)) \<noteq> Int64 then Inl (IdFieldNotInt64 tn (Kind (snd (snd f))))
          else Inr (i + length (takeWhile (\<lambda>f. fst (snd f) \<noteq> ''id'') fs)))"
  by (induction tn fs i rule: find_id_field.induct) (auto split: option.splits)

subsection \<open>Histories with truncation\<close>

lemma truncate_inv:
  assumes inv: "table_inv t db" and b: "db (bucketKey t) = Some b"
    and r: "truncate t db = (err, db')"
  shows "(err \<noteq> None \<and> db' = db) \<or>
         (err = None \<and> db' = db(bucketKey t \<mapsto> empty_bucket) \<and> table_inv t db')"
proof (cases "bucketKey t = []")
  case True
  with r b show ?thesis by (auto simp: truncate_cases [where db = db and t = t, OF b])
next
  case False
  with r b have d: "err = None" "db' = db(bucketKey t \<mapsto> empty_bucket)"
    by (auto simp: truncate_cases [where db = db and t = t, OF b])
  have "table_inv t (db(bucketKey t \<mapsto> empty_bucket))"
    using inv keys_assigned_empty by (rule table_inv_upd) (simp add: empty_bucket_def)
  with d show ?thesis by simp
qed

lemma step_any_inv:
  assumes inv: "table_inv t db" and b: "db (bucketKey t) = Some b"
    and rng: "unat (sequence b) < 2 ^ 64 - 1"
    and r: "step m t c db = (err, v, db')"
  shows "\<exists>b'. db' (bucketKey t) = Some b' \<and> table_inv t db' \<and>
           unat (sequence b') \<le> Suc (unat (sequence b))"
proof (cases "is_Truncate c")
  case False
  from step_inv [OF inv b rng False r] rng show ?thesis
    by (auto simp: unat_succ)
next
  case True
  then have c: "c = Truncate" by (cases c) auto
  with r obtain e where tr: "truncate t db = (e, db')" by (auto split: prod.splits)
  from truncate_inv [OF inv b tr] inv b show ?thesis
    by (auto simp: empty_bucket_def)
qed

lemma run_inv:
  assumes "table_inv t db" and "db (bucketKey t) = Some b"
    and "unat (sequence b) + length cs < 2 ^ 63"
  shows "\<exists>b'. snd (run m t cs db) (bucketKey t) = Some b' \<and> table_inv t (snd (run m t cs db)) \<and>
           unat (sequence b') \<le> unat (sequence b) + length cs"
  using assms
proof (induction cs arbitrary: db b)
  case Nil
  then show ?case by simp
next
  case (Cons c cs)
  obtain err v db1 where st: "step m t c db = (err, v, db1)" by (cases "step m t c db")
  have rng: "unat (sequence b) < 2 ^ 64 - 1" using Cons.prems(3) by simp
  from step_any_inv [OF Cons.prems(1,2) rng st] obtain b1 where
    b1: "db1 (bucketKey t) = Some b1" "table_inv t db1"
        "unat (sequence b1) \<le> Suc (unat (sequence b))"
    by blast
  then have rng1: "unat (sequence b1) + length cs < 2 ^ 63" using Cons.prems(3) by simp
  from Cons.IH [OF b1(2) b1(1) rng1] obtain b' where
    ih: "snd (run m t cs db1) (bucketKey t) = Some b'" "table_inv t (snd (run m t cs db1))"
        "unat (sequence b') \<le> unat (sequence b1) + length cs"
    by blast
  have "snd (run m t (c # cs) db) = snd (run m t cs db1)"
    using st by (simp split: prod.splits)
  with ih b1(3) show ?case by auto
qed

lemma run_append:
  "run m t (cs1 @ cs2) db =
     (fst (run m t cs1 db) @ fst (run m t cs2 (snd (run m t cs1 db))),
      snd (run m t cs2 (snd (run m t cs1 db))))"
  by (induction cs1 arbitrary: db) (auto split: prod.splits)

text \<open>An identifier at or below the counter that has no entry gets none from a call that
  is not a \<^verbatim>\<open>truncate\<close>: a \<^verbatim>\<open>create\<close> writes above the counter, an \<^verbatim>\<open>update\<close> writes where an
  entry is.\<close>

lemma Get_Put_other: "k' \<noteq> k \<Longrightarrow> Get (Put b k v) k' = Get b k'"
  by (simp add: Get_def Put_def map_of_put_entry)

lemma Get_Delete_other: "Get b k' = None \<Longrightarrow> Get (Delete b k) k' = None"
  by (simp add: Get_def Delete_def map_of_delete_entry)

lemma step_absent:
  assumes inv: "table_inv t db" and b: "db (bucketKey t) = Some b"
    and rng: "unat (sequence b) < 2 ^ 64 - 1" and nt: "\<not> is_Truncate c"
    and r: "step m t c db = (err, v, db')"
    and ab: "Get b (idToKey ident) = None" and le: "unat ident \<le> unat (sequence b)"
    and b': "db' (bucketKey t) = Some b'"
  shows "Get b' (idToKey ident) = None \<and> unat ident \<le> unat (sequence b')"
proof (cases c)
  case (Create argT arg)
  with r have cr: "create m t argT arg db = (err, v, db')" by simp
  from create_cases [where db = db and t = t, OF cr b] show ?thesis
  proof
    assume "err \<noteq> None \<and> db' = db"
    with b b' ab le show ?thesis by simp
  next
    assume "err = None \<and>
          (\<exists>va idx js. arg = Some va \<and> idFieldIndex t = Some idx \<and> Field_Int va idx = Some 0 \<and>
             CanSet (recordType t) idx \<and>
             v = Some (va[idx := VInt64 (sequence b + 1)]) \<and>
             m (va[idx := VInt64 (sequence b + 1)]) = Inr js \<and>
             db' = db(bucketKey t \<mapsto>
                      Put (b\<lparr>sequence := sequence b + 1\<rparr>) (idToKey (sequence b + 1)) js))"
    then obtain js where
      d: "db' = db(bucketKey t \<mapsto>
                      Put (b\<lparr>sequence := sequence b + 1\<rparr>) (idToKey (sequence b + 1)) js)"
      by blast
    have u: "unat (sequence b + 1) = Suc (unat (sequence b))" using rng by (rule unat_succ)
    with le have "ident \<noteq> sequence b + 1" by auto
    then have ne: "idToKey ident \<noteq> idToKey (sequence b + 1)" by (simp add: idToKey_inj)
    have "Get (Put (b\<lparr>sequence := sequence b + 1\<rparr>) (idToKey (sequence b + 1)) js) (idToKey ident)
            = Get (b\<lparr>sequence := sequence b + 1\<rparr>) (idToKey ident)"
      using ne by (rule Get_Put_other)
    also have "\<dots> = None" using ab by (simp add: Get_def)
    finally show ?thesis using d b' le u by (auto simp: Put_def)
  qed
next
  case (Update argT arg)
  with r obtain e where up: "update m t argT arg db = (e, db')" by (auto split: prod.splits)
  from update_cases [where db = db and t = t, OF up b] show ?thesis
  proof
    assume "e \<noteq> None \<and> db' = db"
    with b b' ab le show ?thesis by simp
  next
    assume "e = None \<and>
          (\<exists>v idx i js old. arg = Some v \<and> idFieldIndex t = Some idx \<and>
             Field_Int v idx = Some i \<and> i \<noteq> 0 \<and>
             Get b (idToKey i) = Some old \<and> m v = Inr js \<and>
             db' = db(bucketKey t \<mapsto> Put b (idToKey i) js))"
    then obtain i js old where s: "Get b (idToKey i) = Some old"
      "db' = db(bucketKey t \<mapsto> Put b (idToKey i) js)" by blast
    from s(1) ab have "idToKey ident \<noteq> idToKey i" by auto
    then have "Get (Put b (idToKey i) js) (idToKey ident) = Get b (idToKey ident)"
      by (rule Get_Put_other)
    with s(2) b' ab le show ?thesis by (auto simp: Put_def)
  qed
next
  case (DeleteId i)
  have g: "Get (Delete b (idToKey i)) (idToKey ident) = None" using ab by (rule Get_Delete_other)
  have s: "sequence (Delete b (idToKey i)) = sequence b" by (simp add: Delete_def)
  from DeleteId r b b' ab le g s show ?thesis
    by (auto simp: delete_cases [where db = db and t = t, OF b] split: option.splits)
next
  case Truncate
  with nt show ?thesis by simp
qed

lemma run_absent:
  assumes "table_inv t db" and "db (bucketKey t) = Some b"
    and "\<forall>c\<in>set cs. \<not> is_Truncate c"
    and "unat (sequence b) + length cs < 2 ^ 63"
    and "Get b (idToKey ident) = None" and "unat ident \<le> unat (sequence b)"
  shows "\<exists>b'. snd (run m t cs db) (bucketKey t) = Some b' \<and> Get b' (idToKey ident) = None"
  using assms
proof (induction cs arbitrary: db b)
  case Nil
  then show ?case by simp
next
  case (Cons c cs)
  obtain err v db1 where st: "step m t c db = (err, v, db1)" by (cases "step m t c db")
  have rng: "unat (sequence b) < 2 ^ 64 - 1" using Cons.prems(4) by simp
  have nt: "\<not> is_Truncate c" using Cons.prems(3) by simp
  from step_any_inv [OF Cons.prems(1,2) rng st] obtain b1 where
    b1: "db1 (bucketKey t) = Some b1" "table_inv t db1"
        "unat (sequence b1) \<le> Suc (unat (sequence b))"
    by blast
  from step_absent [OF Cons.prems(1,2) rng nt st Cons.prems(5,6) b1(1)]
  have a1: "Get b1 (idToKey ident) = None" "unat ident \<le> unat (sequence b1)" by simp_all
  have rng1: "unat (sequence b1) + length cs < 2 ^ 63" using b1(3) Cons.prems(4) by simp
  have rest: "\<forall>c\<in>set cs. \<not> is_Truncate c" using Cons.prems(3) by simp
  from Cons.IH [OF b1(2) b1(1) rest rng1 a1] obtain b' where
    "snd (run m t cs db1) (bucketKey t) = Some b'" "Get b' (idToKey ident) = None" by blast
  moreover have "snd (run m t (c # cs) db) = snd (run m t cs db1)"
    using st by (simp split: prod.splits)
  ultimately show ?case by simp
qed

subsection \<open>Identifiers without an entry\<close>

lemma present_assigned:
  assumes "keys_assigned b" and "Get b (idToKey ident) \<noteq> None"
  shows "1 \<le> unat ident \<and> unat ident \<le> unat (sequence b)"
proof -
  from assms(2) have "idToKey ident \<in> set (map fst (entries b))" by (simp add: Get_None_iff)
  with assms(1) obtain j where j: "1 \<le> j" "j \<le> unat (sequence b)"
    "idToKey ident = idToKey (word_of_nat j)"
    unfolding keys_assigned_def by force
  then have e: "ident = word_of_nat j" by (simp add: idToKey_inj)
  have "j < 2 ^ 64" using j(2) unat_seq_bound [of "sequence b"] by simp
  then have "unat ident = j" unfolding e by (rule unat_word_of_nat_64)
  with j show ?thesis by simp
qed

lemma getById_absent:
  assumes "Kind (recordType t) = Struct" and "idFieldIndex t \<noteq> None"
    and "db (bucketKey t) = Some b" and "Get b (idToKey ident) = None"
  shows "getById um t ident (TPtr (TPtr (recordType t))) old db = (None, None)"
  using assms
  by (simp add: getById_def validateType_ptr_ptr_struct bolt_View_def getBucket_def)


lemma delete_success:
  assumes "delete t ident db0 = (None, db)"
  shows "\<exists>b0. db0 (bucketKey t) = Some b0 \<and> db = db0(bucketKey t \<mapsto> Delete b0 (idToKey ident))"
  using assms
  by (auto simp: delete_def delete_tx_def bolt_Update_def getBucket_def Let_def
      split: option.splits)

lemma rec_keys_1: "idToKey 1 = ''1''" "idToKey 2 = ''2''"
  by (simp_all add: idToKey_def FormatInt10_def dec.simps digit_def)

subsection \<open>Iteration in key order\<close>

lemma decode_each_all:
  assumes "\<forall>e\<in>set es. \<exists>r. um (snd e) = Inr r"
  shows "\<exists>recs. decode_each um es acc = (None, acc @ recs) \<and>
           map Inr recs = map (\<lambda>e. um (snd e)) es"
  using assms
proof (induction es arbitrary: acc)
  case Nil
  then show ?case by simp
next
  case (Cons e es)
  obtain k v where e: "e = (k, v)" by (cases e)
  from Cons.prems e obtain r where r: "um v = Inr r" by auto
  from Cons.prems have "\<forall>e\<in>set es. \<exists>r. um (snd e) = Inr r" by simp
  from Cons.IH [OF this, of "acc @ [r]"] obtain recs where
    "decode_each um es (acc @ [r]) = (None, (acc @ [r]) @ recs)"
    "map Inr recs = map (\<lambda>e. um (snd e)) es" by blast
  then have "decode_each um (e # es) acc = (None, acc @ (r # recs)) \<and>
             map Inr (r # recs) = map (\<lambda>e. um (snd e)) (e # es)"
    using e r by simp
  then show ?case by blast
qed

lemma strict_sorted_keys:
  assumes "sorted_wrt (<) (map fst es)"
  shows "sorted_list_of_set (fst ` set es) = map fst es"
    and "map (\<lambda>k. map_of es k) (map fst es) = map (\<lambda>e. Some (snd e)) es"
proof -
  from assms have s: "sorted (map fst es)" and d: "distinct (map fst es)"
    by (simp_all add: strict_sorted_iff)
  from s d have "sorted_list_of_set (set (map fst es)) = map fst es"
    by (rule sorted_list_of_set.idem_if_sorted_distinct)
  then show "sorted_list_of_set (fst ` set es) = map fst es" by simp
  have "\<And>e. e \<in> set es \<Longrightarrow> map_of es (fst e) = Some (snd e)"
    using d by simp
  then show "map (\<lambda>k. map_of es k) (map fst es) = map (\<lambda>e. Some (snd e)) es"
    by simp
qed

text \<open>The keys of the identifiers 1 to 10, in ascending order.\<close>

lemma ten_keys_set:
  "(\<lambda>j. idToKey (word_of_nat j)) ` {1..unat (10 :: 64 word)} =
   set (map idToKey [1, 10, 2, 3, 4, 5, 6, 7, 8, 9])"
proof -
  have "{1..unat (10 :: 64 word)} = set [1..<11]" by (simp add: atLeastLessThanSuc_atLeastAtMost [symmetric])
  also have "[1..<11] = [1, 2, 3, 4, 5, 6, 7, 8, 9, 10::nat]" by (simp add: upt_rec)
  finally have "{1..unat (10 :: 64 word)} = set [1, 2, 3, 4, 5, 6, 7, 8, 9, 10::nat]" .
  then show ?thesis by (simp add: insert_commute)
qed

lemma ten_keys_sorted:
  "sorted_wrt (<) (map idToKey [1, 10, 2, 3, 4, 5, 6, 7, 8, 9])"
  by (simp add: idToKey_def FormatInt10_def dec.simps digit_def)

lemma ten_keys:
  assumes "keys_assigned b" and "sequence b = 10" and "card (dom (Get b)) = 10"
  shows "sorted_list_of_set (dom (Get b)) = map idToKey [1, 10, 2, 3, 4, 5, 6, 7, 8, 9]"
proof -
  let ?ks = "map idToKey [1, 10, 2, 3, 4, 5, 6, 7, 8, 9]"
  have "Get b = map_of (entries b)" by (rule ext) (simp add: Get_def)
  then have dm: "dom (Get b) = fst ` set (entries b)"
    by (simp only: dom_map_of_conv_image_fst)
  have sub: "dom (Get b) \<subseteq> set ?ks"
    using assms(1) unfolding dm keys_assigned_def assms(2) ten_keys_set [symmetric] by auto
  have "card (set ?ks) \<le> length ?ks" by (rule card_length)
  then have "card (set ?ks) \<le> card (dom (Get b))" using assms(3) by simp
  with sub have "dom (Get b) = set ?ks" by (intro card_seteq) simp_all
  moreover have "sorted ?ks" "distinct ?ks"
    using ten_keys_sorted by (simp_all only: strict_sorted_iff)
  ultimately show ?thesis
    by (simp only: sorted_list_of_set.idem_if_sorted_distinct)
qed

subsection \<open>An identifier field that cannot be set\<close>

text \<open>\<^verbatim>\<open>newTable\<close> looks at the tag and the kind of the identifier field only, so it registers
  a type whose identifier field is unexported. On such a table \<^verbatim>\<open>create\<close> reads the 0 and
  panics at the write: the record keeps its 0 and the database is as it was.\<close>

lemma newTable_accepts_unexported_id:
  "newTable Hid Map.empty = (Inr hid_table, Map.empty(''Hid'' \<mapsto> empty_bucket))"
  by (simp add: newTable_def Hid_def hid_table_def bolt_Update_def CreateBucketIfNotExists_def)

lemma create_unexported_id_panics:
  "create m hid_table (TPtr Hid) (Some [VInt64 0]) (Map.empty(''Hid'' \<mapsto> empty_bucket)) =
     (Some Panic, Some [VInt64 0], Map.empty(''Hid'' \<mapsto> empty_bucket))"
  by (simp add: create_def create_tx_def validateType_def bolt_Update_def getBucket_def
      NextSequence_def hid_table_def Hid_def Field_Int_def Field_SetInt_def CanSet_def
      empty_bucket_def)

section \<open>The claims\<close>



text \<open>
  C2. The claim fails as stated: \<^verbatim>\<open>truncate\<close> deletes the bucket and creates it again, and
  the new bucket counts from 0, so the first \<^verbatim>\<open>create\<close> after a \<^verbatim>\<open>truncate\<close> hands out the
  identifier 1 a second time. On a table registered on an empty database, \<^verbatim>\<open>create\<close>,
  \<^verbatim>\<open>truncate\<close>, \<^verbatim>\<open>create\<close> hands out 1 and 1.
\<close>

theorem truncate_reuses_id_counterexample:
  "newTable Rec Map.empty = (Inr rec_table, rec_db) \<and>
   fst (run rec_marshal rec_table
          [Create (TPtr Rec) (Some [VInt64 0, VString ''a'']),
           Truncate,
           Create (TPtr Rec) (Some [VInt64 0, VString ''b''])] rec_db) = [1, 1]"
proof -
  have "newTable Rec Map.empty = (Inr rec_table, rec_db)"
    by (simp add: newTable_def Rec_def rec_table_def rec_db_def bolt_Update_def
        CreateBucketIfNotExists_def)
  moreover have "fst (run rec_marshal rec_table
          [Create (TPtr Rec) (Some [VInt64 0, VString ''a'']),
           Truncate,
           Create (TPtr Rec) (Some [VInt64 0, VString ''b''])] rec_db) = [1, 1]"
    by code_simp
  ultimately show ?thesis by simp
qed

text \<open>
  C2, amended. Between truncates the counter only advances and no identifier is handed out
  twice; a \<^verbatim>\<open>truncate\<close> puts the counter back to 0. For a history of \<^verbatim>\<open>create\<close>, \<^verbatim>\<open>update\<close>
  and \<^verbatim>\<open>delete\<close> calls, one \<^verbatim>\<open>truncate\<close>, and more such calls: the identifiers handed out
  before the \<^verbatim>\<open>truncate\<close> are the counter values after the one the history started from,
  one for each \<^verbatim>\<open>create\<close>, and the counter has advanced by their number; the identifiers
  handed out after the \<^verbatim>\<open>truncate\<close> are 1, 2, and so on, and the counter ends at the number
  of \<^verbatim>\<open>create\<close> calls made since the \<^verbatim>\<open>truncate\<close>.
\<close>

theorem ids_restart_after_truncate:
  assumes "table_inv t db" and "db (bucketKey t) = Some b" and "bucketKey t \<noteq> []"
    and "\<forall>c\<in>set cs1. create_ready m t c \<and> \<not> is_Truncate c"
    and "\<forall>c\<in>set cs2. create_ready m t c \<and> \<not> is_Truncate c"
    and "unat (sequence b) + length cs1 < 2 ^ 63" and "length cs2 < 2 ^ 63"
  shows "fst (run m t (cs1 @ Truncate # cs2) db) =
           map (\<lambda>k. sequence b + word_of_nat k) [1..<Suc (length (filter is_Create cs1))] @
           map word_of_nat [1..<Suc (length (filter is_Create cs2))] \<and>
         (\<exists>b1. snd (run m t cs1 db) (bucketKey t) = Some b1 \<and>
               sequence b1 = sequence b + word_of_nat (length (filter is_Create cs1))) \<and>
         (\<exists>b'. snd (run m t (cs1 @ Truncate # cs2) db) (bucketKey t) = Some b' \<and>
               sequence b' = word_of_nat (length (filter is_Create cs2)))"
proof -
  let ?db1 = "snd (run m t cs1 db)"
  let ?db2 = "?db1(bucketKey t \<mapsto> empty_bucket)"
  from run_ids [OF assms(1,2,4,6)] obtain b1 where
    b1: "?db1 (bucketKey t) = Some b1" "table_inv t ?db1" and
    ids1: "fst (run m t cs1 db) =
             map (\<lambda>k. sequence b + word_of_nat k) [1..<Suc (length (filter is_Create cs1))]" and
    s1: "sequence b1 = sequence b + word_of_nat (length (filter is_Create cs1))"
    by blast
  have tr: "truncate t ?db1 = (None, ?db2)"
    using assms(3) by (simp add: truncate_cases [where db = ?db1 and t = t, OF b1(1)])
  have inv2: "table_inv t ?db2"
    using b1(2) keys_assigned_empty by (rule table_inv_upd) (simp add: empty_bucket_def)
  have b2: "?db2 (bucketKey t) = Some empty_bucket" by simp
  have rng2: "unat (sequence empty_bucket) + length cs2 < 2 ^ 63"
    using assms(7) by (simp add: empty_bucket_def)
  from run_ids [OF inv2 b2 assms(5) rng2] obtain b' where
    raw: "snd (run m t cs2 ?db2) (bucketKey t) = Some b'"
        "sequence b' = sequence empty_bucket + word_of_nat (length (filter is_Create cs2))"
        "fst (run m t cs2 ?db2) =
           map (\<lambda>k. sequence empty_bucket + word_of_nat k)
             [1..<Suc (length (filter is_Create cs2))]"
    by blast
  have z: "sequence empty_bucket = 0" by (simp add: empty_bucket_def)
  have b': "snd (run m t cs2 ?db2) (bucketKey t) = Some b'"
        "sequence b' = word_of_nat (length (filter is_Create cs2))"
    using raw(1,2) by (simp_all only: z add_0_left)
  have ids2: "fst (run m t cs2 ?db2) =
             map word_of_nat [1..<Suc (length (filter is_Create cs2))]"
    using raw(3) by (simp only: z add_0_left)
  have r: "run m t (Truncate # cs2) ?db1 = (fst (run m t cs2 ?db2), snd (run m t cs2 ?db2))"
    using tr by (simp split: prod.splits)
  have c1: "\<exists>b1. ?db1 (bucketKey t) = Some b1 \<and>
               sequence b1 = sequence b + word_of_nat (length (filter is_Create cs1))"
    using b1(1) s1 by blast
  have c2: "\<exists>b'. snd (run m t (cs1 @ Truncate # cs2) db) (bucketKey t) = Some b' \<and>
               sequence b' = word_of_nat (length (filter is_Create cs2))"
    using b' r by (simp add: run_append)
  have c0: "fst (run m t (cs1 @ Truncate # cs2) db) =
           map (\<lambda>k. sequence b + word_of_nat k) [1..<Suc (length (filter is_Create cs1))] @
           map word_of_nat [1..<Suc (length (filter is_Create cs2))]"
    using ids1 ids2 r by (simp add: run_append del: upt_Suc)
  from c0 c1 c2 show ?thesis by blast
qed

theorem ids_restart_after_truncate_witness:
  "table_inv rec_table rec_db \<and> rec_db (bucketKey rec_table) = Some empty_bucket \<and>
   fst (run rec_marshal rec_table
          ([Create (TPtr Rec) (Some [VInt64 0, VString ''a'']),
            Create (TPtr Rec) (Some [VInt64 0, VString ''b''])] @ Truncate #
           [Create (TPtr Rec) (Some [VInt64 0, VString ''c''])]) rec_db) = [1, 2, 1]"
proof -
  let ?cs1 = "[Create (TPtr Rec) (Some [VInt64 0, VString ''a'']),
            Create (TPtr Rec) (Some [VInt64 0, VString ''b''])]"
  let ?cs2 = "[Create (TPtr Rec) (Some [VInt64 0, VString ''c''])]"
  have i: "table_inv rec_table rec_db"
    by (simp add: table_inv_def rec_table_def rec_db_def Rec_def keys_assigned_def empty_bucket_def)
  have b: "rec_db (bucketKey rec_table) = Some empty_bucket"
    by (simp add: rec_table_def rec_db_def)
  have n: "bucketKey rec_table \<noteq> []" by (simp add: rec_table_def)
  have c1: "\<forall>c\<in>set ?cs1. create_ready rec_marshal rec_table c \<and> \<not> is_Truncate c"
    by (simp add: rec_table_def rec_marshal_def Rec_def Field_Int_def Field_SetInt_def CanSet_def)
  have c2: "\<forall>c\<in>set ?cs2. create_ready rec_marshal rec_table c \<and> \<not> is_Truncate c"
    by (simp add: rec_table_def rec_marshal_def Rec_def Field_Int_def Field_SetInt_def CanSet_def)
  have r1: "unat (sequence empty_bucket) + length ?cs1 < 2 ^ 63" by (simp add: empty_bucket_def)
  have r2: "length ?cs2 < 2 ^ 63" by simp
  have s: "sequence empty_bucket = 0" by (simp add: empty_bucket_def)
  from ids_restart_after_truncate [OF i b n c1 c2 r1 r2] i b show ?thesis
    by (simp add: s)
qed

text \<open>
  C3. \<^verbatim>\<open>getAll\<close> returns every stored record, in the ascending order of the keys as byte
  strings. In the state that any history of calls leaves a registered table in, with every
  stored value decodable, \<^verbatim>\<open>getAll\<close> returns no error and the list that has, for each key
  of the bucket taken in ascending order (the order on strings compares them byte by byte),
  the decoding of the value stored under it. The keys are the decimal texts of identifiers;
  when the counter is at 10 and the bucket holds ten records, those of the identifiers 1 to
  10, the order is that of the identifiers 1, 10, 2, 3, 4, 5, 6, 7, 8, 9.
\<close>

theorem getAll_ascending_key_order:
  assumes "table_inv t db0" and "db0 (bucketKey t) = Some b0"
    and "unat (sequence b0) + length cs < 2 ^ 63"
    and "snd (run m t cs db0) (bucketKey t) = Some b"
    and "\<forall>e\<in>set (entries b). \<exists>r. um (snd e) = Inr r"
  shows "(\<exists>recs. getAll um t (TPtr (TSlice (recordType t))) old (snd (run m t cs db0)) = (None, recs) \<and>
            map (\<lambda>r. Some (Inr r)) recs =
              map (\<lambda>k. map_option um (Get b k)) (sorted_list_of_set (dom (Get b)))) \<and>
         (sequence b = 10 \<and> card (dom (Get b)) = 10 \<longrightarrow>
            sorted_list_of_set (dom (Get b)) = map idToKey [1, 10, 2, 3, 4, 5, 6, 7, 8, 9])"
proof -
  let ?db = "snd (run m t cs db0)"
  from run_inv [OF assms(1-3), of m] assms(4) have inv: "table_inv t ?db" by auto
  with assms(4) have st: "Kind (recordType t) = Struct" and ix: "idFieldIndex t \<noteq> None"
    and ka: "keys_assigned b" and so: "sorted_wrt (<) (map fst (entries b))"
    by (auto simp: table_inv_def)
  from decode_each_all [OF assms(5), of "[]"] obtain recs where
    d: "decode_each um (entries b) [] = (None, recs)"
       "map Inr recs = map (\<lambda>e. um (snd e)) (entries b)" by auto
  have g: "getAll um t (TPtr (TSlice (recordType t))) old ?db = (None, recs)"
    using st ix assms(4) d(1)
    by (simp add: getAll_def validateType_ptr_slice_struct bolt_View_def getBucket_def)
  have "Get b = map_of (entries b)" by (rule ext) (simp add: Get_def)
  then have dm: "dom (Get b) = fst ` set (entries b)"
    by (simp only: dom_map_of_conv_image_fst)
  have "map (\<lambda>k. map_option um (Get b k)) (sorted_list_of_set (dom (Get b))) =
        map (map_option um) (map (\<lambda>k. map_of (entries b) k) (map fst (entries b)))"
    by (simp add: dm strict_sorted_keys(1) [OF so] Get_def comp_def)
  also have "\<dots> = map (map_option um) (map (\<lambda>e. Some (snd e)) (entries b))"
    by (simp only: strict_sorted_keys(2) [OF so])
  also have "\<dots> = map (\<lambda>e. Some (um (snd e))) (entries b)" by simp
  also have "\<dots> = map Some (map Inr recs)" by (simp add: d(2) comp_def)
  finally have "map (\<lambda>r. Some (Inr r)) recs =
             map (\<lambda>k. map_option um (Get b k)) (sorted_list_of_set (dom (Get b)))"
    by (simp add: comp_def)
  with g have 1: "\<exists>recs. getAll um t (TPtr (TSlice (recordType t))) old ?db = (None, recs) \<and>
            map (\<lambda>r. Some (Inr r)) recs =
              map (\<lambda>k. map_option um (Get b k)) (sorted_list_of_set (dom (Get b)))"
    by blast
  have 2: "sequence b = 10 \<and> card (dom (Get b)) = 10 \<longrightarrow>
            sorted_list_of_set (dom (Get b)) = map idToKey [1, 10, 2, 3, 4, 5, 6, 7, 8, 9]"
    using ten_keys [OF ka] by blast
  from 1 2 show ?thesis by (rule conjI)
qed

theorem getAll_ascending_key_order_witness:
  "fst (run rec_marshal rec_table
          (map (\<lambda>s. Create (TPtr Rec) (Some [VInt64 0, VString s]))
             [''a'', ''b'', ''c'', ''d'', ''e'', ''f'', ''g'', ''h'', ''i'', ''j'']) rec_db)
     = [1, 2, 3, 4, 5, 6, 7, 8, 9, 10] \<and>
   getAll rec_unmarshal rec_table (TPtr (TSlice Rec)) []
     (snd (run rec_marshal rec_table
          (map (\<lambda>s. Create (TPtr Rec) (Some [VInt64 0, VString s]))
             [''a'', ''b'', ''c'', ''d'', ''e'', ''f'', ''g'', ''h'', ''i'', ''j'']) rec_db))
     = (None, [ [VInt64 1, VString ''a''], [VInt64 10, VString ''j''], [VInt64 2, VString ''b''],
               [VInt64 3, VString ''c''], [VInt64 4, VString ''d''], [VInt64 5, VString ''e''],
               [VInt64 6, VString ''f''], [VInt64 7, VString ''g''], [VInt64 8, VString ''h''],
               [VInt64 9, VString ''i''] ]) \<and>
   sorted_list_of_set (dom (Get \<lparr>sequence = 10, entries =
        [(''1'', ''1,a''), (''10'', ''10,j''), (''2'', ''2,b''), (''3'', ''3,c''), (''4'', ''4,d''),
         (''5'', ''5,e''), (''6'', ''6,f''), (''7'', ''7,g''), (''8'', ''8,h''), (''9'', ''9,i'')]\<rparr>))
     = map idToKey [1, 10, 2, 3, 4, 5, 6, 7, 8, 9]"
proof -
  let ?cs = "map (\<lambda>s. Create (TPtr Rec) (Some [VInt64 0, VString s]))
             [''a'', ''b'', ''c'', ''d'', ''e'', ''f'', ''g'', ''h'', ''i'', ''j'']"
  let ?b = "\<lparr>sequence = 10, entries =
        [(''1'', ''1,a''), (''10'', ''10,j''), (''2'', ''2,b''), (''3'', ''3,c''), (''4'', ''4,d''),
         (''5'', ''5,e''), (''6'', ''6,f''), (''7'', ''7,g''), (''8'', ''8,h''), (''9'', ''9,i'')]\<rparr>"
  let ?recs = "[ [VInt64 1, VString ''a''], [VInt64 10, VString ''j''], [VInt64 2, VString ''b''],
               [VInt64 3, VString ''c''], [VInt64 4, VString ''d''], [VInt64 5, VString ''e''],
               [VInt64 6, VString ''f''], [VInt64 7, VString ''g''], [VInt64 8, VString ''h''],
               [VInt64 9, VString ''i''] ]"
  have i: "table_inv rec_table rec_db"
    by (simp add: table_inv_def rec_table_def rec_db_def Rec_def keys_assigned_def empty_bucket_def)
  have b0: "rec_db (bucketKey rec_table) = Some empty_bucket"
    by (simp add: rec_table_def rec_db_def)
  have r: "unat (sequence empty_bucket) + length ?cs < 2 ^ 63" by (simp add: empty_bucket_def)
  have ids: "fst (run rec_marshal rec_table ?cs rec_db) = [1, 2, 3, 4, 5, 6, 7, 8, 9, 10]"
    by code_simp
  have b: "snd (run rec_marshal rec_table ?cs rec_db) (bucketKey rec_table) = Some ?b"
    by code_simp
  have d: "\<forall>e\<in>set (entries ?b). \<exists>r. rec_unmarshal (snd e) = Inr r"
    by (simp add: rec_unmarshal_def digit_value_def)
  have g: "getAll rec_unmarshal rec_table (TPtr (TSlice Rec)) []
             (snd (run rec_marshal rec_table ?cs rec_db)) = (None, ?recs)"
    by code_simp
  have "Get ?b = map_of (entries ?b)" by (rule ext) (simp add: Get_def)
  then have "dom (Get ?b) = set (map fst (entries ?b))"
    by (simp only: dom_map_of_conv_image_fst set_map)
  moreover have "distinct (map fst (entries ?b))" by simp
  ultimately have c: "sequence ?b = 10 \<and> card (dom (Get ?b)) = 10"
    by (simp only: distinct_card) simp
  from getAll_ascending_key_order [OF i b0 r b d] c
  have "sorted_list_of_set (dom (Get ?b)) = map idToKey [1, 10, 2, 3, 4, 5, 6, 7, 8, 9]"
    by blast
  with ids g show ?thesis by (simp only:)
qed



text \<open>
  C5. On a registered table, \<^verbatim>\<open>getById\<close> with a pointer to a record pointer, for an
  identifier that was never handed out (it is 0, or beyond the counter, which as an
  unsigned value covers the negative ones) or for one whose record the call before
  deleted, returns no error and sets the record pointer to nil.
\<close>

theorem getById_absent_is_nil:
  assumes "table_inv t db" and "db (bucketKey t) = Some b"
    and "(unat ident = 0 \<or> unat (sequence b) < unat ident) \<or>
         (\<exists>db0. delete t ident db0 = (None, db))"
  shows "getById um t ident (TPtr (TPtr (recordType t))) old db = (None, None)"
proof -
  from assms(1,2) have st: "Kind (recordType t) = Struct" and ix: "idFieldIndex t \<noteq> None"
    and ka: "keys_assigned b"
    by (auto simp: table_inv_def)
  have "Get b (idToKey ident) = None"
    using assms(3)
  proof
    assume n: "unat ident = 0 \<or> unat (sequence b) < unat ident"
    show ?thesis
    proof (rule ccontr)
      assume "Get b (idToKey ident) \<noteq> None"
      with ka have "1 \<le> unat ident \<and> unat ident \<le> unat (sequence b)" by (rule present_assigned)
      with n show False by auto
    qed
  next
    assume "\<exists>db0. delete t ident db0 = (None, db)"
    then obtain db0 b0 where "db0 (bucketKey t) = Some b0"
      "db = db0(bucketKey t \<mapsto> Delete b0 (idToKey ident))"
      using delete_success by blast
    with assms(2) have "b = Delete b0 (idToKey ident)" by simp
    then show ?thesis by (simp add: Get_Delete_same)
  qed
  with st ix assms(2) show ?thesis by (rule getById_absent)
qed

theorem getById_absent_is_nil_witness:
  "getById rec_unmarshal_into rec_table 7 (TPtr (TPtr Rec)) (Some [VInt64 3, VString ''x'']) rec_db
     = (None, None) \<and>
   delete rec_table 1
     (rec_db(''Rec'' \<mapsto> \<lparr>sequence = 2, entries = [(''1'', ''1,a''), (''2'', ''2,b'')]\<rparr>))
     = (None, rec_db(''Rec'' \<mapsto> \<lparr>sequence = 2, entries = [(''2'', ''2,b'')]\<rparr>)) \<and>
   getById rec_unmarshal_into rec_table 1 (TPtr (TPtr Rec)) (Some [VInt64 3, VString ''x''])
     (rec_db(''Rec'' \<mapsto> \<lparr>sequence = 2, entries = [(''2'', ''2,b'')]\<rparr>)) = (None, None)"
proof -
  let ?b1 = "\<lparr>sequence = 2, entries = [(''1'', ''1,a''), (''2'', ''2,b'')]\<rparr>"
  let ?b2 = "\<lparr>sequence = 2, entries = [(''2'', ''2,b'')]\<rparr>"
  let ?db1 = "rec_db(''Rec'' \<mapsto> ?b1)"
  let ?db2 = "rec_db(''Rec'' \<mapsto> ?b2)"
  have i0: "table_inv rec_table rec_db"
    by (simp add: table_inv_def rec_table_def rec_db_def Rec_def keys_assigned_def empty_bucket_def)
  have b0: "rec_db (bucketKey rec_table) = Some empty_bucket"
    by (simp add: rec_table_def rec_db_def)
  have n0: "(unat (7 :: 64 word) = 0 \<or> unat (sequence empty_bucket) < unat (7 :: 64 word)) \<or>
            (\<exists>db0. delete rec_table 7 db0 = (None, rec_db))"
    by (simp add: empty_bucket_def)
  have "(2::nat) \<in> {1..unat (2 :: 64 word)}" by simp
  then have "idToKey (word_of_nat 2) \<in> (\<lambda>j. idToKey (word_of_nat j)) ` {1..unat (2 :: 64 word)}"
    by (rule imageI)
  then have k2: "keys_assigned ?b2" by (simp add: keys_assigned_def rec_keys_1)
  have i2: "table_inv rec_table ?db2"
    using k2 by (simp add: table_inv_def rec_table_def Rec_def)
  have b2: "?db2 (bucketKey rec_table) = Some ?b2" by (simp add: rec_table_def)
  have d: "delete rec_table 1 ?db1 = (None, ?db2)"
    by (simp add: delete_def delete_tx_def bolt_Update_def getBucket_def Get_def Delete_def
        rec_table_def idToKey_def FormatInt10_def dec.simps digit_def)
  then have n2: "(unat (1 :: 64 word) = 0 \<or> unat (sequence ?b2) < unat (1 :: 64 word)) \<or>
            (\<exists>db0. delete rec_table 1 db0 = (None, ?db2))"
    by blast
  have t: "recordType rec_table = Rec" by (simp add: rec_table_def)
  from getById_absent_is_nil [OF i0 b0 n0, of rec_unmarshal_into "Some [VInt64 3, VString ''x'']"]
       getById_absent_is_nil [OF i2 b2 n2, of rec_unmarshal_into "Some [VInt64 3, VString ''x'']"] d
  show ?thesis by (simp add: t)
qed

text \<open>
  C6. \<^verbatim>\<open>update\<close> of a record with a non-zero identifier whose key has no entry in the
  bucket of a registered table fails with the error for a record that does not exist, and
  the database it returns is the database it was given: nothing is inserted.
\<close>

theorem update_nonexistent_fails:
  assumes "Kind (recordType t) = Struct" and "idFieldIndex t = Some idx"
    and "db (bucketKey t) = Some b"
    and "Field_Int r idx = Some ident" and "ident \<noteq> 0"
    and "Get b (idToKey ident) = None"
  shows "update m t (TPtr (recordType t)) (Some r) db =
           (Some (UpdateNonExistent (name t) ident), db)"
  using assms
  by (simp add: update_def update_tx_def validateType_ptr_struct bolt_Update_def getBucket_def)

theorem update_nonexistent_fails_witness:
  "Kind (recordType rec_table) = Struct \<and> idFieldIndex rec_table = Some 0 \<and>
   rec_db (bucketKey rec_table) = Some empty_bucket \<and>
   Field_Int [VInt64 5, VString ''e''] 0 = Some 5 \<and> (5 :: 64 word) \<noteq> 0 \<and>
   Get empty_bucket (idToKey 5) = None \<and>
   update rec_marshal rec_table (TPtr Rec) (Some [VInt64 5, VString ''e'']) rec_db =
     (Some (UpdateNonExistent ''Rec'' 5), rec_db)"
proof -
  have 1: "Kind (recordType rec_table) = Struct" by (simp add: rec_table_def Rec_def)
  have 2: "idFieldIndex rec_table = Some 0" by (simp add: rec_table_def)
  have 3: "rec_db (bucketKey rec_table) = Some empty_bucket"
    by (simp add: rec_table_def rec_db_def)
  have 4: "Field_Int [VInt64 5, VString ''e''] 0 = Some 5" by (simp add: Field_Int_def)
  have 5: "(5 :: 64 word) \<noteq> 0" by simp
  have 6: "Get empty_bucket (idToKey 5) = None" by (simp add: Get_def empty_bucket_def)
  from update_nonexistent_fails [where db = rec_db and t = rec_table and m = rec_marshal, OF 1 2 3 4 5 6] 1 2 3 4 5 6
  show ?thesis by (simp add: rec_table_def)
qed

text \<open>
  C7. On a registered table, \<^verbatim>\<open>delete\<close> of an identifier whose key has no entry fails with
  the error for a record that does not exist and leaves the database as it was; \<^verbatim>\<open>delete\<close>
  of an identifier whose key has an entry succeeds, and \<^verbatim>\<open>getById\<close> for that identifier then
  returns no error and a nil record pointer, at once and after any further \<^verbatim>\<open>create\<close>,
  \<^verbatim>\<open>update\<close> and \<^verbatim>\<open>delete\<close> calls.
\<close>

theorem delete_reports_or_removes:
  assumes "table_inv t db" and "db (bucketKey t) = Some b"
  shows "(Get b (idToKey ident) = None \<longrightarrow>
            delete t ident db = (Some (DeleteNonExistent (name t) ident), db)) \<and>
         (Get b (idToKey ident) \<noteq> None \<longrightarrow>
            fst (delete t ident db) = None \<and>
            getById um t ident (TPtr (TPtr (recordType t))) old (snd (delete t ident db))
              = (None, None) \<and>
            (\<forall>cs. (\<forall>c\<in>set cs. \<not> is_Truncate c) \<and> unat (sequence b) + length cs < 2 ^ 63 \<longrightarrow>
               getById um t ident (TPtr (TPtr (recordType t))) old
                 (snd (run m t cs (snd (delete t ident db)))) = (None, None)))"
proof (intro conjI impI)
  assume "Get b (idToKey ident) = None"
  then show "delete t ident db = (Some (DeleteNonExistent (name t) ident), db)"
    by (simp add: delete_cases [where db = db and t = t, OF assms(2)])
next
  assume p: "Get b (idToKey ident) \<noteq> None"
  let ?b1 = "Delete b (idToKey ident)"
  let ?db1 = "db(bucketKey t \<mapsto> ?b1)"
  from assms have st: "Kind (recordType t) = Struct" and ix: "idFieldIndex t \<noteq> None"
    and ka: "keys_assigned b" and so: "sorted_wrt (<) (map fst (entries b))"
    by (auto simp: table_inv_def)
  from p have d: "delete t ident db = (None, ?db1)"
    by (auto simp: delete_cases [where db = db and t = t, OF assms(2)])
  then show "fst (delete t ident db) = None" by simp
  have b1: "?db1 (bucketKey t) = Some ?b1" by simp
  have g1: "Get ?b1 (idToKey ident) = None" by (rule Get_Delete_same)
  from st ix b1 g1
  have "getById um t ident (TPtr (TPtr (recordType t))) old ?db1 = (None, None)"
    by (rule getById_absent)
  then show "getById um t ident (TPtr (TPtr (recordType t))) old (snd (delete t ident db))
              = (None, None)"
    by (simp add: d)
  have inv1: "table_inv t ?db1"
    using assms(1) keys_assigned_Delete [OF ka]
    by (rule table_inv_upd) (simp add: Delete_def sorted_delete_entry so)
  have s1: "sequence ?b1 = sequence b" by (simp add: Delete_def)
  from present_assigned [OF ka p] have le: "unat ident \<le> unat (sequence ?b1)" by (simp add: s1)
  show "\<forall>cs. (\<forall>c\<in>set cs. \<not> is_Truncate c) \<and> unat (sequence b) + length cs < 2 ^ 63 \<longrightarrow>
               getById um t ident (TPtr (TPtr (recordType t))) old
                 (snd (run m t cs (snd (delete t ident db)))) = (None, None)"
  proof (intro allI impI)
    fix cs
    assume a: "(\<forall>c\<in>set cs. \<not> is_Truncate c) \<and> unat (sequence b) + length cs < 2 ^ 63"
    then have nt: "\<forall>c\<in>set cs. \<not> is_Truncate c"
      and rng: "unat (sequence ?b1) + length cs < 2 ^ 63" by (simp_all add: s1)
    from run_absent [OF inv1 b1 nt rng g1 le] obtain b' where
      "snd (run m t cs ?db1) (bucketKey t) = Some b'" "Get b' (idToKey ident) = None" by blast
    with st ix have "getById um t ident (TPtr (TPtr (recordType t))) old (snd (run m t cs ?db1))
                       = (None, None)"
      by (rule getById_absent)
    then show "getById um t ident (TPtr (TPtr (recordType t))) old
                 (snd (run m t cs (snd (delete t ident db)))) = (None, None)"
      by (simp add: d)
  qed
qed

theorem delete_reports_or_removes_witness:
  "delete rec_table 3
     (rec_db(''Rec'' \<mapsto> \<lparr>sequence = 2, entries = [(''2'', ''2,b'')]\<rparr>))
     = (Some (DeleteNonExistent ''Rec'' 3),
        rec_db(''Rec'' \<mapsto> \<lparr>sequence = 2, entries = [(''2'', ''2,b'')]\<rparr>)) \<and>
   delete rec_table 2
     (rec_db(''Rec'' \<mapsto> \<lparr>sequence = 2, entries = [(''2'', ''2,b'')]\<rparr>))
     = (None, rec_db(''Rec'' \<mapsto> \<lparr>sequence = 2, entries = []\<rparr>)) \<and>
   getById rec_unmarshal_into rec_table 2 (TPtr (TPtr Rec)) (Some [VInt64 2, VString ''b''])
     (rec_db(''Rec'' \<mapsto> \<lparr>sequence = 2, entries = []\<rparr>)) = (None, None) \<and>
   getById rec_unmarshal_into rec_table 2 (TPtr (TPtr Rec)) (Some [VInt64 2, VString ''b''])
     (snd (run rec_marshal rec_table [Create (TPtr Rec) (Some [VInt64 0, VString ''c''])]
             (rec_db(''Rec'' \<mapsto> \<lparr>sequence = 2, entries = []\<rparr>)))) = (None, None)"
proof -
  let ?b2 = "\<lparr>sequence = 2, entries = [(''2'', ''2,b'')]\<rparr>"
  let ?b3 = "\<lparr>sequence = 2, entries = []\<rparr> :: bucket"
  let ?db2 = "rec_db(''Rec'' \<mapsto> ?b2)"
  let ?db3 = "rec_db(''Rec'' \<mapsto> ?b3)"
  let ?cs = "[Create (TPtr Rec) (Some [VInt64 0, VString ''c''])]"
  let ?old = "Some [VInt64 2, VString ''b'']"
  have "(2::nat) \<in> {1..unat (2 :: 64 word)}" by simp
  then have "idToKey (word_of_nat 2) \<in> (\<lambda>j. idToKey (word_of_nat j)) ` {1..unat (2 :: 64 word)}"
    by (rule imageI)
  then have k2: "keys_assigned ?b2" by (simp add: keys_assigned_def rec_keys_1)
  have i2: "table_inv rec_table ?db2"
    using k2 by (simp add: table_inv_def rec_table_def Rec_def)
  have b2: "?db2 (bucketKey rec_table) = Some ?b2" by (simp add: rec_table_def)
  have g2: "Get ?b2 (idToKey 2) \<noteq> None" "Get ?b2 (idToKey 3) = None"
    by (simp_all add: Get_def idToKey_def FormatInt10_def dec.simps digit_def)
  have d: "delete rec_table 2 ?db2 = (None, ?db3)"
    by (simp add: delete_def delete_tx_def bolt_Update_def getBucket_def Get_def Delete_def
        rec_table_def idToKey_def FormatInt10_def dec.simps digit_def)
  have c: "(\<forall>c\<in>set ?cs. \<not> is_Truncate c) \<and> unat (sequence ?b2) + length ?cs < 2 ^ 63" by simp
  have t: "recordType rec_table = Rec" "name rec_table = ''Rec''" by (simp_all add: rec_table_def)
  note th3 = delete_reports_or_removes
         [OF i2 b2, where ident = 3 and um = rec_unmarshal_into and old = ?old and m = rec_marshal]
  note th2 = delete_reports_or_removes
         [OF i2 b2, where ident = 2 and um = rec_unmarshal_into and old = ?old and m = rec_marshal]
  from th3 g2(2) have 1: "delete rec_table 3 ?db2 = (Some (DeleteNonExistent ''Rec'' 3), ?db2)"
    unfolding t by blast
  from th2 g2(1) have
    2: "getById rec_unmarshal_into rec_table 2 (TPtr (TPtr Rec)) ?old (snd (delete rec_table 2 ?db2))
          = (None, None)" and
    3: "\<forall>cs. (\<forall>c\<in>set cs. \<not> is_Truncate c) \<and> unat (sequence ?b2) + length cs < 2 ^ 63 \<longrightarrow>
               getById rec_unmarshal_into rec_table 2 (TPtr (TPtr Rec)) ?old
                 (snd (run rec_marshal rec_table cs (snd (delete rec_table 2 ?db2)))) = (None, None)"
    unfolding t by blast+
  from 3 c have 4: "getById rec_unmarshal_into rec_table 2 (TPtr (TPtr Rec)) ?old
                 (snd (run rec_marshal rec_table ?cs (snd (delete rec_table 2 ?db2)))) = (None, None)"
    by blast
  from 1 2 4 d show ?thesis by (simp only: snd_conv) 
qed

text \<open>
  C8. \<^verbatim>\<open>newTable\<close> on a type in which no field carries the tag \<^verbatim>\<open>id\<close>, or in which the first
  field that carries it, the one the loop stops at, is not of kind \<^verbatim>\<open>int64\<close>, returns an
  error of the schema, and the database it returns is the database it was given: no
  bucket is created.
\<close>

theorem newTable_rejects_bad_id_field:
  assumes "case find (\<lambda>f. fst (snd f) = ''id'') (Fields rt) of
             None \<Rightarrow> True
           | Some f \<Rightarrow> Kind (snd (snd f)) \<noteq> Int64"
  shows "newTable rt db =
           (Inl (if Kind rt \<noteq> Struct then RecordTypeNotStruct (Kind rt)
                 else (case find (\<lambda>f. fst (snd f) = ''id'') (Fields rt) of
                         None \<Rightarrow> NoIdField (Name rt)
                       | Some f \<Rightarrow> IdFieldNotInt64 (Name rt) (Kind (snd (snd f))))), db)"
  using assms
  by (auto simp: newTable_def find_id_field_find split: option.splits)

theorem newTable_rejects_bad_id_field_witness:
  "newTable (TStruct ''NoId'' [((''Name'', []), [], TOther String)]) Map.empty =
     (Inl (NoIdField ''NoId''), Map.empty) \<and>
   newTable (TStruct ''BadId''
              [((''Id'', []), ''id'', TOther String), ((''N'', []), ''id'', TOther Int64)])
     Map.empty = (Inl (IdFieldNotInt64 ''BadId'' String), Map.empty)"
  using newTable_rejects_bad_id_field [of "TStruct ''NoId'' [((''Name'', []), [], TOther String)]" Map.empty]
    newTable_rejects_bad_id_field
      [of "TStruct ''BadId''
              [((''Id'', []), ''id'', TOther String), ((''N'', []), ''id'', TOther Int64)]" Map.empty]
  by simp



text \<open>
  C10. A \<^verbatim>\<open>create\<close> that passes the check of the shape and of the zero identifier, and then
  fails inside the transaction after it has taken the next sequence value, because an entry
  already has the key or because the codec fails, returns an error and the database it was
  given (the counter is not advanced either), while the caller's record holds the new
  identifier, which is positive as long as the counter is within the positive range of
  \<^verbatim>\<open>int64\<close>. The two failures of the claim come after the write of the identifier, so the
  field is one that can be set; where it cannot, the write panics first and the record
  keeps its 0 (\<open>create_unexported_id_panics\<close>).
\<close>

theorem failed_create_keeps_new_id:
  assumes "Kind (recordType t) = Struct" and "idFieldIndex t = Some idx"
    and "CanSet (recordType t) idx"
    and "db (bucketKey t) = Some b"
    and "Field_Int r idx = Some 0"
    and "Get b (idToKey (sequence b + 1)) \<noteq> None \<or>
         (\<exists>e. m (r[idx := VInt64 (sequence b + 1)]) = Inl e)"
    and "unat (sequence b) < 2 ^ 63 - 1"
  shows "\<exists>e r'. create m t (TPtr (recordType t)) (Some r) db = (Some e, Some r', db) \<and>
           r' = (r[idx := VInt64 (sequence b + 1)]) \<and>
           Field_Int r' idx = Some (sequence b + 1) \<and> 0 < sint (sequence b + 1)"
proof -
  have u: "unat (sequence b + 1) = Suc (unat (sequence b))"
    using assms(7) by (intro unat_succ) simp
  then have "unat (sequence b + 1) < 2 ^ 63" using assms(7) by simp
  then have "sint (sequence b + 1) = int (unat (sequence b + 1))" by (rule sint_small)
  then have "sint (sequence b + 1) = int (Suc (unat (sequence b)))" by (simp only: u)
  then have p: "0 < sint (sequence b + 1)" by (simp only: of_nat_0_less_iff zero_less_Suc)
  have f: "Field_Int (r[idx := VInt64 (sequence b + 1)]) idx = Some (sequence b + 1)"
    using assms(5) by (rule Field_Int_SetInt)
  have "\<exists>e. create m t (TPtr (recordType t)) (Some r) db =
          (Some e, Some (r[idx := VInt64 (sequence b + 1)]), db)"
    using assms(1-6)
    by (auto simp: create_def create_tx_def validateType_ptr_struct bolt_Update_def getBucket_def
        NextSequence_def Get_def Let_def Field_SetInt_def split: option.splits sum.splits)
  with f p show ?thesis by blast
qed

theorem failed_create_keeps_new_id_witness:
  "create rec_marshal rec_table (TPtr Rec) (Some [VInt64 0, VString ''c''])
     (rec_db(''Rec'' \<mapsto> \<lparr>sequence = 1, entries = [(''2'', ''2,b'')]\<rparr>)) =
     (Some (AlreadyExists ''Rec'' 2 ''2,b''), Some [VInt64 2, VString ''c''],
      rec_db(''Rec'' \<mapsto> \<lparr>sequence = 1, entries = [(''2'', ''2,b'')]\<rparr>)) \<and>
   create (\<lambda>v. Inl (JsonError ''unsupported type'')) rec_table (TPtr Rec)
     (Some [VInt64 0, VString ''c'']) rec_db =
     (Some (JsonError ''unsupported type''), Some [VInt64 1, VString ''c''], rec_db)"
proof -
  let ?db = "rec_db(''Rec'' \<mapsto> \<lparr>sequence = 1, entries = [(''2'', ''2,b'')]\<rparr>)"
  let ?b = "\<lparr>sequence = 1, entries = [(''2'', ''2,b'')]\<rparr>"
  have k: "Kind (recordType rec_table) = Struct" by (simp add: rec_table_def Rec_def)
  have i: "idFieldIndex rec_table = Some 0" by (simp add: rec_table_def)
  have b: "?db (bucketKey rec_table) = Some ?b" by (simp add: rec_table_def)
  have b0: "rec_db (bucketKey rec_table) = Some empty_bucket"
    by (simp add: rec_table_def rec_db_def)
  have s: "CanSet (recordType rec_table) 0" by (simp add: rec_table_def Rec_def CanSet_def)
  have f: "Field_Int [VInt64 0, VString ''c''] 0 = Some 0" by (simp add: Field_Int_def)
  have g: "Get ?b (idToKey (sequence ?b + 1)) \<noteq> None \<or>
           (\<exists>e. rec_marshal ([VInt64 0, VString ''c''][0 := VInt64 (sequence ?b + 1)]) = Inl e)"
    by (simp add: Get_def idToKey_def FormatInt10_def dec.simps digit_def)
  have g0: "Get empty_bucket (idToKey (sequence empty_bucket + 1)) \<noteq> None \<or>
           (\<exists>e. (\<lambda>v. Inl (JsonError ''unsupported type''))
                   ([VInt64 0, VString ''c''][0 := VInt64 (sequence empty_bucket + 1)]) = Inl e)"
    by simp
  have r: "unat (sequence ?b) < 2 ^ 63 - 1" by simp
  have r0: "unat (sequence empty_bucket) < 2 ^ 63 - 1" by (simp add: empty_bucket_def)
  have c1: "create rec_marshal rec_table (TPtr Rec) (Some [VInt64 0, VString ''c'']) ?db =
     (Some (AlreadyExists ''Rec'' 2 ''2,b''), Some [VInt64 2, VString ''c''], ?db)"
    by (simp add: create_def create_tx_def validateType_def bolt_Update_def getBucket_def
        NextSequence_def Get_def rec_table_def Rec_def Field_Int_def Field_SetInt_def CanSet_def
        idToKey_def FormatInt10_def dec.simps digit_def)
  from failed_create_keeps_new_id
         [where db = ?db and t = rec_table and m = rec_marshal, OF k i s b f g r]
       failed_create_keeps_new_id
         [where db = rec_db and t = rec_table and m = "\<lambda>v. Inl (JsonError ''unsupported type'')",
          OF k i s b0 f g0 r0] c1
  show ?thesis
    by (auto simp: rec_table_def empty_bucket_def Field_SetInt_def CanSet_def create_def create_tx_def
        validateType_def bolt_Update_def getBucket_def NextSequence_def Get_def rec_db_def
        Rec_def Field_Int_def idToKey_def FormatInt10_def dec.simps digit_def)
qed

end
